theory Spec2Isabelle
  imports Main "HOL-Library.Word"
begin

section \<open>The Guppy session of \<^verbatim>\<open>src/guppy.c\<close>\<close>

text \<open>
  The file embeds the client side of the Guppy protocol as \<^verbatim>\<open>src/guppy.c\<close> implements
  it: the retry callback, \<^verbatim>\<open>open\<close> and \<^verbatim>\<open>cancel\<close>, the admission of a chunk into the
  reorder slots, the drain of consecutive chunks into the body and the parser of one
  inbound read.

  Conventions of the embedding.
  \<^item> A block of bytes (\<^verbatim>\<open>iBlock\<close>) and a string (\<^verbatim>\<open>iString\<close>) are lists of \<open>char\<close>; the
    header line is read as single-byte characters.
  \<^item> A C \<^verbatim>\<open>int\<close> is an \<open>int\<close>. The only arithmetic on sequence numbers is
    \<^verbatim>\<open>currentSeq + 1\<close>, guarded by \<^verbatim>\<open>currentSeq < INT_MAX\<close>, and \<^verbatim>\<open>lastSeq - 1\<close>;
    \<open>INT_MAX\<close> is that of a 32-bit \<^verbatim>\<open>int\<close>.
  \<^item> The tick counts (\<^verbatim>\<open>uint64_t\<close>) are 64-bit words, whose \<open>+\<close> wraps as in C.
  \<^item> The struct \<^verbatim>\<open>iGuppy\<close> and the enum \<^verbatim>\<open>iGuppyState\<close> are declared in \<^verbatim>\<open>guppy.h\<close>,
    which is not among the sources. The record below has the fields \<^verbatim>\<open>guppy.c\<close> reads
    and writes. The number of reorder slots (the length of the array \<^verbatim>\<open>chunks\<close>) is
    the length of the list \<open>chunks\<close>: no operation changes it, and every theorem
    quantifies over it.
  \<^item> The socket is the list of the blocks written to it, in order; what
    \<^verbatim>\<open>readAll_Socket\<close>, \<^verbatim>\<open>status_Socket\<close> and \<^verbatim>\<open>SDL_GetTicks64\<close> return are arguments.
  \<^item> The mutex is not modelled: every operation is one atomic step.
  \<^item> C names ending in an underscore lose it (\<^verbatim>\<open>storeChunk_Guppy_\<close> is
    \<open>storeChunk_Guppy\<close>).
\<close>

subsection \<open>Data\<close>

type_synonym bytes = string

definition INT_MAX :: int where
  "INT_MAX = 2147483647"

text \<open>
  The states \<^verbatim>\<open>guppy.c\<close> assigns or compares with, and \<open>timedOut_GuppyState\<close>, which
  the specification lists among the values of \<open>state\<close> (no line of \<^verbatim>\<open>guppy.c\<close> assigns it).
\<close>

datatype GuppyState =
    none_GuppyState
  | inProgress_GuppyState
  | finished_GuppyState
  | invalidResponse_GuppyState
  | inputRequired_GuppyState
  | redirect_GuppyState
  | error_GuppyState
  | timedOut_GuppyState

text \<open>One reorder slot, \<^verbatim>\<open>d->chunks[i]\<close>: \<open>seq = 0\<close> marks a free slot.\<close>

record GuppyChunk =
  seq :: int
  data :: bytes

record Guppy =
  state :: GuppyState
  url :: string
  socket :: "bytes list"
  body :: bytes
  meta :: string
  timer :: int
  firstSent :: "64 word"
  lastSent :: "64 word"
  chunks :: "GuppyChunk list"
  firstSeq :: int
  lastSeq :: int
  currentSeq :: int

definition freeChunk :: GuppyChunk where
  "freeChunk = \<lparr>seq = 0, data = []\<rparr>"

subsection \<open>Text helpers of the C library and of the Foundation library\<close>

text \<open>\<^verbatim>\<open>"%d"\<close> of \<^verbatim>\<open>collectNewFormat_String\<close>: the decimal digits, with a minus sign.\<close>

fun natDigits :: "nat \<Rightarrow> string" where
  "natDigits n =
     (if n < 10 then [''0123456789'' ! n]
      else natDigits (n div 10) @ [''0123456789'' ! (n mod 10)])"

declare natDigits.simps [simp del]

definition formatInt :: "int \<Rightarrow> string" where
  "formatInt i = (if i < 0 then CHR ''-'' # natDigits (nat (- i)) else natDigits (nat i))"

definition CRLF :: string where
  "CRLF = [CHR 0x0D, CHR 0x0A]"

text \<open>\<^verbatim>\<open>indexOfCStr_String\<close>: the first position at which the pattern starts, if any.\<close>

fun indexOfCStr_String :: "bytes \<Rightarrow> bytes \<Rightarrow> nat option" where
  "indexOfCStr_String [] p = None"
| "indexOfCStr_String (c # cs) p =
     (if take (length p) (c # cs) = p then Some 0
      else map_option Suc (indexOfCStr_String cs p))"

definition isDigit :: "char \<Rightarrow> bool" where
  "isDigit c = (48 \<le> (of_char c :: nat) \<and> (of_char c :: nat) \<le> 57)"

text \<open>
  The regular expression \<^verbatim>\<open>^([0-9]+)(.*)\<close> on the header line: the first group is the
  longest run of digits at the start, which must not be empty; the second group is what
  follows, up to the first line feed (the dot matches no line feed).
\<close>

definition matchString_metaPattern :: "string \<Rightarrow> (string \<times> string) option" where
  "matchString_metaPattern header =
     (let digits = takeWhile isDigit header in
      if digits = [] then None
      else Some (digits, takeWhile (\<lambda>c. c \<noteq> CHR 0x0A) (dropWhile isDigit header)))"

text \<open>
  \<^verbatim>\<open>toInt_String\<close> on a string of digits: its decimal value, brought into the range of a
  32-bit \<^verbatim>\<open>int\<close> by wrap-around. For a value up to \<open>INT_MAX\<close> it is the value itself.
\<close>

definition decimalValue :: "string \<Rightarrow> int" where
  "decimalValue s = foldl (\<lambda>a c. 10 * a + (of_char c - 48)) 0 s"

definition toInt_String :: "string \<Rightarrow> int" where
  "toInt_String s = (decimalValue s + 2147483648) mod 4294967296 - 2147483648"

subsection \<open>Lifecycle and writes\<close>

text \<open>
  \<^verbatim>\<open>init_Guppy\<close> resets every field it names; \<^verbatim>\<open>meta\<close> is not among them. The pointers
  \<^verbatim>\<open>url\<close>, \<^verbatim>\<open>socket\<close> and \<^verbatim>\<open>body\<close> become \<^verbatim>\<open>NULL\<close>, here the empty list.
\<close>

definition init_Guppy :: "Guppy \<Rightarrow> Guppy" where
  "init_Guppy d =
     d\<lparr>state := none_GuppyState, url := [], socket := [], body := [], timer := 0,
       firstSent := 0, lastSent := 0, chunks := map (\<lambda>_. freeChunk) (chunks d),
       firstSeq := 0, lastSeq := 0, currentSeq := 0\<rparr>"

definition request_Guppy :: "Guppy \<Rightarrow> Guppy" where
  "request_Guppy d = d\<lparr>socket := socket d @ [url d @ CRLF]\<rparr>"

definition ack_Guppy :: "Guppy \<Rightarrow> int \<Rightarrow> Guppy" where
  "ack_Guppy d sq = d\<lparr>socket := socket d @ [formatInt sq @ CRLF]\<rparr>"

text \<open>
  \<^verbatim>\<open>retryGuppy_\<close>, the timer callback. The arguments are the value of
  \<^verbatim>\<open>SDL_GetTicks64()\<close> and whether \<^verbatim>\<open>status_Socket\<close> is \<^verbatim>\<open>connected_SocketStatus\<close>. The
  result is the session, whether the timeout audience was notified, and the returned
  interval.
\<close>

definition retryGuppy :: "Guppy \<Rightarrow> 64 word \<Rightarrow> bool \<Rightarrow> Guppy \<times> bool \<times> nat" where
  "retryGuppy d now connected =
     (if now \<ge> firstSent d + 6000 then (d, True, 0)
      else if firstSeq d = 0 \<and> connected \<and> now \<ge> lastSent d + 1000
        then ((request_Guppy d)\<lparr>lastSent := now\<rparr>, False, 100)
      else if currentSeq d \<noteq> 0 \<and> now \<ge> lastSent d + 500
        then ((ack_Guppy d (currentSeq d))\<lparr>lastSent := now\<rparr>, False, 100)
      else (d, False, 100))"

text \<open>
  \<^verbatim>\<open>open_Guppy\<close>; \<open>now\<close> is \<^verbatim>\<open>SDL_GetTicks64()\<close> and \<open>tid\<close> what \<^verbatim>\<open>SDL_AddTimer\<close> returns.
\<close>

definition open_Guppy :: "Guppy \<Rightarrow> 64 word \<Rightarrow> int \<Rightarrow> Guppy" where
  "open_Guppy d now tid =
     (let d1 = (request_Guppy (d\<lparr>state := inProgress_GuppyState\<rparr>))\<lparr>lastSent := now\<rparr>;
          d2 = (if firstSent d1 = 0 then d1\<lparr>firstSent := lastSent d1\<rparr> else d1)
      in if timer d2 = 0 then d2\<lparr>timer := tid\<rparr> else d2)"

definition cancel_Guppy :: "Guppy \<Rightarrow> Guppy" where
  "cancel_Guppy d = d\<lparr>timer := 0\<rparr>"

text \<open>
  The SDL timer that runs \<^verbatim>\<open>retryGuppy_\<close>: SDL calls the callback at each tick while the
  timer is registered, and removes the timer when the callback returns 0. \<open>runTimer\<close>
  takes whether the timer is registered and the ticks (the clock value and the socket
  status at each); it returns the session, whether the timer is still registered, and
  how many times the timeout audience was notified.
\<close>

fun runTimer :: "Guppy \<Rightarrow> bool \<Rightarrow> (64 word \<times> bool) list \<Rightarrow> Guppy \<times> bool \<times> nat" where
  "runTimer d registered [] = (d, registered, 0)"
| "runTimer d registered ((now, connected) # ticks) =
     (if \<not> registered then runTimer d False ticks
      else (case retryGuppy d now connected of
              (d', notified, interval) \<Rightarrow>
                (case runTimer d' (interval \<noteq> 0) ticks of
                   (d'', registered', n) \<Rightarrow>
                     (d'', registered', (if notified then Suc n else n)))))"

subsection \<open>Admission: \<^verbatim>\<open>storeChunk_Guppy_\<close>\<close>

text \<open>
  The \<^verbatim>\<open>for\<close> loop of \<^verbatim>\<open>storeChunk_Guppy_\<close> over the slots from index \<open>i\<close> on, with the
  loop variables \<^verbatim>\<open>found\<close>, \<^verbatim>\<open>slot\<close>, \<^verbatim>\<open>maxSeq\<close> and \<^verbatim>\<open>maxSeqSlot\<close>. The \<^verbatim>\<open>break\<close> ends the
  scan with \<^verbatim>\<open>found\<close> set.
\<close>

fun scanSlots ::
  "int \<Rightarrow> int \<Rightarrow> int \<Rightarrow> nat \<Rightarrow> GuppyChunk list \<Rightarrow> int \<Rightarrow> int \<Rightarrow> int \<Rightarrow> bool \<times> int \<times> int \<times> int"
where
  "scanSlots fs ls sq i [] slot maxSeq maxSeqSlot = (False, slot, maxSeq, maxSeqSlot)"
| "scanSlots fs ls sq i (c # cs) slot maxSeq maxSeqSlot =
     (if seq c = sq then (True, slot, maxSeq, maxSeqSlot)
      else
        (let slot' =
               (if slot < 0 \<and> (seq c = 0 \<or> (fs > 0 \<and> seq c < fs) \<or> (ls > 0 \<and> seq c > ls))
                then int i else slot)
         in if seq c > maxSeq
            then scanSlots fs ls sq (Suc i) cs slot' (seq c) (int i)
            else scanSlots fs ls sq (Suc i) cs slot' maxSeq maxSeqSlot))"

definition storeChunk_Guppy :: "Guppy \<Rightarrow> int \<Rightarrow> bytes \<Rightarrow> Guppy" where
  "storeChunk_Guppy d0 sq dat =
     (let d = (if firstSeq d0 = 0 \<and> sq < INT_MAX then d0\<lparr>firstSeq := sq\<rparr> else d0) in
      if lastSeq d = 0 \<and> length dat = 0 then d\<lparr>lastSeq := sq\<rparr>
      else if (currentSeq d \<noteq> 0 \<and> sq \<le> currentSeq d) \<or> (firstSeq d \<noteq> 0 \<and> sq < firstSeq d)
              \<or> (lastSeq d \<noteq> 0 \<and> sq > lastSeq d) then d
      else
        (case scanSlots (firstSeq d) (lastSeq d) sq 0 (chunks d) (- 1) (- 1) (- 1) of
           (found, slot, maxSeq, maxSeqSlot) \<Rightarrow>
             if \<not> found then
               (let slot' = (if sq = firstSeq d \<and> slot < 0 then maxSeqSlot else slot) in
                if slot' \<ge> 0
                then d\<lparr>chunks := (chunks d)[nat slot' := \<lparr>seq = sq, data = dat\<rparr>]\<rparr>
                else d)
             else d))"

subsection \<open>Drain: \<^verbatim>\<open>processChunks_Guppy_\<close>\<close>

text \<open>
  One pass of the \<^verbatim>\<open>for\<close> loop of \<^verbatim>\<open>processChunks_Guppy_\<close> over the slots from index \<open>i\<close>
  on; \<open>n\<close> is the number of slots. The loop reads \<^verbatim>\<open>firstSeq\<close> and updates
  \<^verbatim>\<open>currentSeq\<close>, \<^verbatim>\<open>body\<close>, \<^verbatim>\<open>*notifyUpdate\<close>, \<^verbatim>\<open>again\<close> and the slot itself. The result is
  the slots after the pass, the four variables, and (not in the C code) the chunks that
  were appended to the body, in the order of the appends.
\<close>

fun scanChunks ::
  "int \<Rightarrow> nat \<Rightarrow> nat \<Rightarrow> GuppyChunk list \<Rightarrow> int \<Rightarrow> bytes \<Rightarrow> bool \<Rightarrow> bool \<Rightarrow>
     GuppyChunk list \<times> int \<times> bytes \<times> bool \<times> bool \<times> GuppyChunk list"
where
  "scanChunks fs n i [] cur bd nu ag = ([], cur, bd, nu, ag, [])"
| "scanChunks fs n i (c # cs) cur bd nu ag =
     (if (cur \<noteq> 0 \<and> cur < INT_MAX \<and> seq c = cur + 1) \<or> (cur = 0 \<and> fs > 0 \<and> seq c = fs)
      then (case scanChunks fs n (Suc i) cs (seq c) (bd @ data c) True (i < n - 1) of
              (cs', cur', bd', nu', ag', hits) \<Rightarrow>
                (freeChunk # cs', cur', bd', nu', ag', c # hits))
      else (case scanChunks fs n (Suc i) cs cur bd nu ag of
              (cs', cur', bd', nu', ag', hits) \<Rightarrow>
                (c # cs', cur', bd', nu', ag', hits)))"

text \<open>The body of the \<^verbatim>\<open>do\<close> loop: \<^verbatim>\<open>again = false\<close>, then one pass over all slots.\<close>

definition drainPass :: "Guppy \<Rightarrow> bool \<Rightarrow> Guppy \<times> bool \<times> bool \<times> GuppyChunk list" where
  "drainPass d nu =
     (case scanChunks (firstSeq d) (length (chunks d)) 0 (chunks d)
             (currentSeq d) (body d) nu False of
        (cs', cur', bd', nu', ag', hits) \<Rightarrow>
          (d\<lparr>chunks := cs', currentSeq := cur', body := bd'\<rparr>, nu', ag', hits))"

text \<open>The weight that every repeated pass lowers.\<close>

definition slotWeight :: "GuppyChunk list \<Rightarrow> int \<Rightarrow> nat" where
  "slotWeight cs cur =
     2 * length (filter (\<lambda>c. seq c \<noteq> 0) cs) + (if cur = - 1 then 1 else 0)"

lemma slotWeight_Cons:
  "slotWeight (c # cs) cur = slotWeight cs cur + (if seq c \<noteq> 0 then 2 else 0)"
  by (simp add: slotWeight_def)

lemma scanChunks_weight:
  "scanChunks fs n i cs cur bd nu ag = (cs', cur', bd', nu', ag', hits) \<Longrightarrow>
     slotWeight cs' cur' \<le> slotWeight cs cur
     \<and> (ag' \<and> \<not> ag \<longrightarrow> slotWeight cs' cur' < slotWeight cs cur)
     \<and> (hits \<noteq> [] \<longrightarrow> slotWeight cs' cur' < slotWeight cs cur)"
proof (induction cs arbitrary: i cur bd nu ag cs' cur' bd' nu' ag' hits)
  case Nil
  then show ?case by simp
next
  case (Cons c cs)
  show ?case
  proof (cases "(cur \<noteq> 0 \<and> cur < INT_MAX \<and> seq c = cur + 1) \<or> (cur = 0 \<and> fs > 0 \<and> seq c = fs)")
    case True
    obtain cs1 cur1 bd1 nu1 ag1 h1 where
      r: "scanChunks fs n (Suc i) cs (seq c) (bd @ data c) True (i < n - 1)
            = (cs1, cur1, bd1, nu1, ag1, h1)"
      by (metis prod_cases6)
    from Cons.prems True r have e: "cs' = freeChunk # cs1" "cur' = cur1"
      by auto
    from Cons.IH [OF r] have le: "slotWeight cs1 cur1 \<le> slotWeight cs (seq c)" by simp
    from True have lt: "slotWeight cs (seq c) < slotWeight (c # cs) cur"
      by (auto simp: slotWeight_def)
    have "slotWeight cs' cur' = slotWeight cs1 cur1"
      using e by (simp add: slotWeight_Cons freeChunk_def)
    with le lt have "slotWeight cs' cur' < slotWeight (c # cs) cur" by linarith
    then show ?thesis by simp
  next
    case False
    obtain cs1 cur1 bd1 nu1 ag1 h1 where
      r: "scanChunks fs n (Suc i) cs cur bd nu ag = (cs1, cur1, bd1, nu1, ag1, h1)"
      by (metis prod_cases6)
    from Cons.prems False r have e: "cs' = c # cs1" "cur' = cur1" "ag' = ag1" "hits = h1"
      by auto
    from Cons.IH [OF r] e show ?thesis by (simp add: slotWeight_Cons)
  qed
qed

text \<open>
  The \<^verbatim>\<open>do ... while (again)\<close> loop: passes are repeated while the last pass left
  \<^verbatim>\<open>again\<close> set. The result is the session, \<^verbatim>\<open>*notifyUpdate\<close> and the appended chunks
  of all passes.
\<close>

function drainLoop :: "Guppy \<Rightarrow> bool \<Rightarrow> Guppy \<times> bool \<times> GuppyChunk list" where
  "drainLoop d nu =
     (case drainPass d nu of
        (d', nu', again, hits) \<Rightarrow>
          if again then
            (case drainLoop d' nu' of (d'', nu'', hits') \<Rightarrow> (d'', nu'', hits @ hits'))
          else (d', nu', hits))"
  by pat_completeness auto
termination
proof (relation "measure (\<lambda>(d, nu). slotWeight (chunks d) (currentSeq d))")
  show "wf (measure (\<lambda>(d, nu). slotWeight (chunks d) (currentSeq d)))" by simp
next
  fix d nu x y xa ya xb yb
  assume "(x, y) = drainPass d nu" "(xa, ya) = y" "(xb, yb) = ya" "xb"
  then show "((x, xa), d, nu) \<in> measure (\<lambda>(d, nu). slotWeight (chunks d) (currentSeq d))"
    using scanChunks_weight [of "firstSeq d" "length (chunks d)" 0 "chunks d"
        "currentSeq d" "body d" nu False]
    by (auto simp: drainPass_def split: prod.splits)
qed

declare drainLoop.simps [simp del]

text \<open>
  \<^verbatim>\<open>processChunks_Guppy_\<close>: the loop, then the test for the end of the stream. The result
  is the session and \<^verbatim>\<open>*notifyUpdate\<close>.
\<close>

definition processChunks_Guppy :: "Guppy \<Rightarrow> bool \<Rightarrow> Guppy \<times> bool" where
  "processChunks_Guppy d nu =
     (case drainLoop d nu of
        (d', nu', hits) \<Rightarrow>
          (if lastSeq d' \<noteq> 0 \<and> currentSeq d' = lastSeq d' - 1
           then d'\<lparr>state := finished_GuppyState\<rparr> else d',
           nu'))"

text \<open>The chunks one call of \<^verbatim>\<open>processChunks_Guppy_\<close> appends to the body, in order.\<close>

definition appended :: "Guppy \<Rightarrow> GuppyChunk list" where
  "appended d = (case drainLoop d False of (d', nu', hits) \<Rightarrow> hits)"

subsection \<open>The parser: \<^verbatim>\<open>processResponse_Guppy\<close>\<close>

text \<open>
  The block under \<^verbatim>\<open>if (!d->firstSeq)\<close>: the number is read as a status code. The second
  group of the match loses its first character when it has one
  (\<^verbatim>\<open>mid_String(meta, 1, metaLength - 1)\<close>). Cases 0 and 5 clear the local string only,
  and case 4 does not touch \<^verbatim>\<open>d->meta\<close>.
\<close>

definition statusLine :: "Guppy \<Rightarrow> int \<Rightarrow> string \<Rightarrow> Guppy" where
  "statusLine d sq captured2 =
     (let m = (if length captured2 > 0 then take (length captured2 - 1) (drop 1 captured2)
               else captured2)
      in if sq = 0 \<or> sq = 5 then d\<lparr>state := invalidResponse_GuppyState\<rparr>
         else if sq = 1 then d\<lparr>state := inputRequired_GuppyState, meta := m\<rparr>
         else if sq = 3 then d\<lparr>state := redirect_GuppyState, meta := m\<rparr>
         else if sq = 4 then d\<lparr>state := error_GuppyState\<rparr>
         else d\<lparr>state := inProgress_GuppyState, meta := m\<rparr>)"

text \<open>
  What follows a successful match: the status code while \<^verbatim>\<open>firstSeq\<close> is 0, then for a
  number from 6 on the acknowledgment, the time stamp and, in state
  \<^verbatim>\<open>inProgress_GuppyState\<close>, the admission of the payload.
\<close>

definition matchedHeader :: "Guppy \<Rightarrow> int \<Rightarrow> string \<Rightarrow> bytes \<Rightarrow> 64 word \<Rightarrow> Guppy" where
  "matchedHeader d sq captured2 payload now =
     (let d1 = (if firstSeq d = 0 then statusLine d sq captured2 else d) in
      if sq \<ge> 6 then
        (let d2 = (ack_Guppy d1 sq)\<lparr>lastSent := now\<rparr> in
         if state d2 = inProgress_GuppyState then storeChunk_Guppy d2 sq payload else d2)
      else d1)"

text \<open>
  \<^verbatim>\<open>processResponse_Guppy\<close>: \<open>raw\<close> is what \<^verbatim>\<open>readAll_Socket\<close> returns, \<open>now\<close> the value of
  \<^verbatim>\<open>SDL_GetTicks64()\<close>, \<open>nu\<close> the value of \<^verbatim>\<open>*notifyUpdate\<close> at the call. The returned state
  is the \<open>state\<close> of the resulting session.
\<close>

definition processResponse_Guppy :: "Guppy \<Rightarrow> bytes \<Rightarrow> 64 word \<Rightarrow> bool \<Rightarrow> Guppy \<times> bool" where
  "processResponse_Guppy d raw now nu =
     (case (if raw \<noteq> [] then
              (case indexOfCStr_String raw CRLF of
                 None \<Rightarrow> (d, nu)
               | Some crlf \<Rightarrow>
                   processChunks_Guppy
                     (case matchString_metaPattern (take crlf raw) of
                        Some (captured1, captured2) \<Rightarrow>
                          matchedHeader d (toInt_String captured1) captured2
                            (drop (crlf + 2) raw) now
                      | None \<Rightarrow> d\<lparr>state := invalidResponse_GuppyState\<rparr>)
                     nu)
            else (d, nu)) of
        (d', nu') \<Rightarrow>
          (if state d' \<noteq> inProgress_GuppyState then cancel_Guppy d' else d', nu'))"

text \<open>A run of calls of \<^verbatim>\<open>processResponse_Guppy\<close>, one per read, each with its clock value.\<close>

fun processAll :: "Guppy \<Rightarrow> (bytes \<times> 64 word) list \<Rightarrow> Guppy" where
  "processAll d [] = d"
| "processAll d ((raw, now) # reads) =
     processAll (fst (processResponse_Guppy d raw now False)) reads"

section \<open>Evaluation lemmas\<close>

text \<open>
  Scans over free slots, the four reads of the scenario parsed once and for all, and one
  lemma for each read of the scenario, for any number of slots from three on.
  \<open>afterChunks\<close> names the last statement of \<^verbatim>\<open>processResponse_Guppy\<close>: the timer is cancelled
  when the state is not \<open>inProgress_GuppyState\<close>.
\<close>

lemma seq_free [simp]: "seq freeChunk = 0" "data freeChunk = []"
  by (simp_all add: freeChunk_def)

lemma scanSlots_free:
  "sq \<noteq> 0 \<Longrightarrow> 0 \<le> slot \<Longrightarrow> 0 \<le> maxSeq \<Longrightarrow>
     scanSlots fs ls sq i (replicate k freeChunk) slot maxSeq maxSeqSlot
       = (False, slot, maxSeq, maxSeqSlot)"
  by (induction k arbitrary: i) (simp_all add: freeChunk_def)

lemma scanChunks_free:
  "cur \<noteq> - 1 \<Longrightarrow>
     scanChunks fs n i (replicate k freeChunk) cur bd nu ag
       = (replicate k freeChunk, cur, bd, nu, ag, [])"
  by (induction k arbitrary: i) (auto simp: freeChunk_def)

definition afterChunks :: "Guppy \<times> bool \<Rightarrow> Guppy \<times> bool" where
  "afterChunks r = (case r of (d', nu') \<Rightarrow>
          (if state d' \<noteq> inProgress_GuppyState then cancel_Guppy d' else d', nu'))"

lemma parse1:
  "processResponse_Guppy d (''6 hello'' @ CRLF @ ''AB'') now nu
     = afterChunks (processChunks_Guppy (matchedHeader d 6 '' hello'' ''AB'' now) nu)"
  by (simp add: processResponse_Guppy_def CRLF_def matchString_metaPattern_def isDigit_def
      toInt_String_def decimalValue_def afterChunks_def)

lemma parse2:
  "processResponse_Guppy d (''8'' @ CRLF @ ''EF'') now nu
     = afterChunks (processChunks_Guppy (matchedHeader d 8 [] ''EF'' now) nu)"
  by (simp add: processResponse_Guppy_def CRLF_def matchString_metaPattern_def isDigit_def
      toInt_String_def decimalValue_def afterChunks_def)

lemma formatInt_digit:
  "formatInt 6 = ''6''" "formatInt 7 = ''7''" "formatInt 8 = ''8''" "formatInt 9 = ''9''"
  by (simp_all add: formatInt_def natDigits.simps [of 6] natDigits.simps [of 7] natDigits.simps [of 8] natDigits.simps [of 9])

lemma parse3:
  "processResponse_Guppy d (''7'' @ CRLF @ ''CD'') now nu
     = afterChunks (processChunks_Guppy (matchedHeader d 7 [] ''CD'' now) nu)"
  by (simp add: processResponse_Guppy_def CRLF_def matchString_metaPattern_def isDigit_def
      toInt_String_def decimalValue_def afterChunks_def)

lemma parse4:
  "processResponse_Guppy d (''9'' @ CRLF) now nu
     = afterChunks (processChunks_Guppy (matchedHeader d 9 [] [] now) nu)"
  by (simp add: processResponse_Guppy_def CRLF_def matchString_metaPattern_def isDigit_def
      toInt_String_def decimalValue_def afterChunks_def)

lemma scenario_step1:
  assumes "chunks d = replicate (Suc (Suc (Suc k))) freeChunk" "firstSeq d = 0" "lastSeq d = 0"
    "currentSeq d = 0" "body d = []"
  shows "fst (processResponse_Guppy d (''6 hello'' @ CRLF @ ''AB'') t False)
    = d\<lparr>state := inProgress_GuppyState, meta := ''hello'', socket := socket d @ [''6'' @ CRLF],
        lastSent := t, firstSeq := 6, currentSeq := 6, body := ''AB''\<rparr>"
  using assms
  apply (simp only: parse1)
  apply (simp add: formatInt_digit matchedHeader_def statusLine_def ack_Guppy_def)
  apply (simp add: storeChunk_Guppy_def INT_MAX_def scanSlots_free)
  apply (simp add: processChunks_Guppy_def)
  apply (subst drainLoop.simps)
  apply (simp add: drainPass_def scanChunks_free)
  apply (subst drainLoop.simps)
  apply (simp add: drainPass_def scanChunks_free INT_MAX_def)
  apply (simp add: afterChunks_def)
  done

lemma scenario_step2:
  assumes "chunks d = replicate (Suc (Suc (Suc k))) freeChunk" "firstSeq d = 6" "lastSeq d = 0"
    "currentSeq d = 6" "state d = inProgress_GuppyState"
  shows "fst (processResponse_Guppy d (''8'' @ CRLF @ ''EF'') t False)
    = d\<lparr>socket := socket d @ [''8'' @ CRLF], lastSent := t,
        chunks := \<lparr>seq = 8, data = ''EF''\<rparr> # replicate (Suc (Suc k)) freeChunk\<rparr>"
  using assms
  apply (simp only: parse2)
  apply (simp add: formatInt_digit matchedHeader_def ack_Guppy_def)
  apply (simp add: storeChunk_Guppy_def INT_MAX_def scanSlots_free)
  apply (simp add: processChunks_Guppy_def)
  apply (subst drainLoop.simps)
  apply (simp add: drainPass_def scanChunks_free INT_MAX_def)
  apply (simp add: afterChunks_def)
  done

lemma scenario_step3:
  assumes "chunks d = \<lparr>seq = 8, data = ''EF''\<rparr> # replicate (Suc (Suc k)) freeChunk"
    "firstSeq d = 6" "lastSeq d = 0"
    "currentSeq d = 6" "state d = inProgress_GuppyState" "body d = ''AB''"
  shows "fst (processResponse_Guppy d (''7'' @ CRLF @ ''CD'') t False)
    = d\<lparr>socket := socket d @ [''7'' @ CRLF], lastSent := t,
        chunks := replicate (Suc (Suc (Suc k))) freeChunk, currentSeq := 8, body := ''ABCDEF''\<rparr>"
  using assms
  apply (simp only: parse3)
  apply (simp add: formatInt_digit matchedHeader_def ack_Guppy_def)
  apply (simp add: storeChunk_Guppy_def INT_MAX_def scanSlots_free)
  apply (simp add: processChunks_Guppy_def)
  apply (subst drainLoop.simps)
  apply (simp add: drainPass_def scanChunks_free INT_MAX_def)
  apply (subst drainLoop.simps)
  apply (simp add: drainPass_def scanChunks_free INT_MAX_def)
  apply (subst drainLoop.simps)
  apply (simp add: drainPass_def scanChunks_free INT_MAX_def)
  apply (simp add: afterChunks_def)
  done

lemma scenario_step4:
  assumes "chunks d = replicate (Suc (Suc (Suc k))) freeChunk"
    "firstSeq d = 6" "lastSeq d = 0"
    "currentSeq d = 8" "state d = inProgress_GuppyState"
  shows "fst (processResponse_Guppy d (''9'' @ CRLF) t False)
    = d\<lparr>socket := socket d @ [''9'' @ CRLF], lastSent := t,
        lastSeq := 9, state := finished_GuppyState, timer := 0\<rparr>"
  using assms
  apply (simp only: parse4)
  apply (simp add: formatInt_digit matchedHeader_def ack_Guppy_def)
  apply (simp add: storeChunk_Guppy_def INT_MAX_def scanSlots_free)
  apply (simp add: processChunks_Guppy_def)
  apply (subst drainLoop.simps)
  apply (simp add: drainPass_def scanChunks_free INT_MAX_def)
  apply (simp add: afterChunks_def cancel_Guppy_def)
  done

section \<open>Properties of the admission\<close>

text \<open>
  What the scan of \<^verbatim>\<open>storeChunk_Guppy_\<close> returns (whether the chunk was found, which slot
  is free or stale, where the highest number sits), the fields an admission never
  touches, and the two outcomes of an admission: the slots are unchanged, or one slot is
  overwritten with a chunk that was inside the window and not yet buffered.
\<close>

lemma scanSlots_found:
  "fst (scanSlots fs ls sq i cs slot m ms) = (sq \<in> seq ` set cs)"
  by (induction cs arbitrary: i slot m ms) (auto simp: Let_def)

lemma scanSlots_index:
  "scanSlots fs ls sq i cs slot m ms = (f, s', m', ms') \<Longrightarrow>
     (s' = slot \<or> (\<exists>j<length cs. s' = int (i + j)))
     \<and> (ms' = ms \<or> (\<exists>j<length cs. ms' = int (i + j)))"
proof (induction cs arbitrary: i slot m ms)
  case Nil
  then show ?case by simp
next
  case (Cons c cs)
  show ?case
  proof (cases "seq c = sq")
    case True
    with Cons.prems show ?thesis by simp
  next
    case False
    define slot1 where "slot1 =
      (if slot < 0 \<and> (seq c = 0 \<or> (fs > 0 \<and> seq c < fs) \<or> (ls > 0 \<and> seq c > ls))
       then int i else slot)"
    define m1 where "m1 = (if seq c > m then seq c else m)"
    define ms1 where "ms1 = (if seq c > m then int i else ms)"
    from Cons.prems False
    have r: "scanSlots fs ls sq (Suc i) cs slot1 m1 ms1 = (f, s', m', ms')"
      by (auto simp: slot1_def m1_def ms1_def Let_def split: if_splits)
    from Cons.IH [OF r]
    have a: "s' = slot1 \<or> (\<exists>j<length cs. s' = int (Suc i + j))"
      and b: "ms' = ms1 \<or> (\<exists>j<length cs. ms' = int (Suc i + j))"
      by simp_all
    have "s' = slot \<or> (\<exists>j<length (c # cs). s' = int (i + j))"
    proof -
      from a consider "s' = slot1" | j where "j < length cs" "s' = int (Suc i + j)" by blast
      then show ?thesis
      proof cases
        case 1
        then show ?thesis by (auto simp: slot1_def intro: exI [where x = 0])
      next
        case 2
        then show ?thesis by (auto intro: exI [where x = "Suc j"])
      qed
    qed
    moreover have "ms' = ms \<or> (\<exists>j<length (c # cs). ms' = int (i + j))"
    proof -
      from b consider "ms' = ms1" | j where "j < length cs" "ms' = int (Suc i + j)" by blast
      then show ?thesis
      proof cases
        case 1
        then show ?thesis by (auto simp: ms1_def intro: exI [where x = 0])
      next
        case 2
        then show ?thesis by (auto intro: exI [where x = "Suc j"])
      qed
    qed
    ultimately show ?thesis by simp
  qed
qed

lemma scanSlots_max:
  "sq \<notin> seq ` set cs \<Longrightarrow> scanSlots fs ls sq i cs slot m ms = (f, s', m', ms') \<Longrightarrow>
     m \<le> m' \<and> (\<forall>c\<in>set cs. seq c \<le> m')
     \<and> ((m' = m \<and> ms' = ms) \<or> (\<exists>j<length cs. ms' = int (i + j) \<and> seq (cs ! j) = m' \<and> m < m'))"
proof (induction cs arbitrary: i slot m ms)
  case Nil
  then show ?case by simp
next
  case (Cons c cs)
  from Cons.prems have ne: "seq c \<noteq> sq" and nin: "sq \<notin> seq ` set cs" by auto
  define slot1 where "slot1 =
      (if slot < 0 \<and> (seq c = 0 \<or> (fs > 0 \<and> seq c < fs) \<or> (ls > 0 \<and> seq c > ls))
       then int i else slot)"
  define m1 where "m1 = (if seq c > m then seq c else m)"
  define ms1 where "ms1 = (if seq c > m then int i else ms)"
  from Cons.prems ne
  have r: "scanSlots fs ls sq (Suc i) cs slot1 m1 ms1 = (f, s', m', ms')"
    by (auto simp: slot1_def m1_def ms1_def Let_def split: if_splits)
  from Cons.IH [OF nin r]
  have le: "m1 \<le> m'" and all: "\<forall>c\<in>set cs. seq c \<le> m'"
    and alt: "(m' = m1 \<and> ms' = ms1) \<or>
      (\<exists>j<length cs. ms' = int (Suc i + j) \<and> seq (cs ! j) = m' \<and> m1 < m')"
    by simp_all
  have m_le: "m \<le> m1" and c_le: "seq c \<le> m1" by (simp_all add: m1_def)
  have "(m' = m \<and> ms' = ms) \<or>
      (\<exists>j<length (c # cs). ms' = int (i + j) \<and> seq ((c # cs) ! j) = m' \<and> m < m')"
  proof -
    from alt consider "m' = m1" "ms' = ms1"
      | j where "j < length cs" "ms' = int (Suc i + j)" "seq (cs ! j) = m'" "m1 < m'" by blast
    then show ?thesis
    proof cases
      case 1
      then show ?thesis by (auto simp: m1_def ms1_def intro: exI [where x = 0])
    next
      case 2
      with m_le show ?thesis by (auto intro: exI [where x = "Suc j"])
    qed
  qed
  with le all m_le c_le show ?case by auto
qed

lemma scanSlots_no_slot:
  "\<forall>c\<in>set cs. \<not> (seq c = 0 \<or> (fs > 0 \<and> seq c < fs) \<or> (ls > 0 \<and> seq c > ls)) \<Longrightarrow>
     scanSlots fs ls sq i cs slot m ms = (f, s', m', ms') \<Longrightarrow> s' = slot"
  by (induction cs arbitrary: i m ms) (auto simp: Let_def split: if_splits)

lemma storeChunk_frame [simp]:
  "state (storeChunk_Guppy d sq dat) = state d"
  "body (storeChunk_Guppy d sq dat) = body d"
  "currentSeq (storeChunk_Guppy d sq dat) = currentSeq d"
  "socket (storeChunk_Guppy d sq dat) = socket d"
  "meta (storeChunk_Guppy d sq dat) = meta d"
  "timer (storeChunk_Guppy d sq dat) = timer d"
  "url (storeChunk_Guppy d sq dat) = url d"
  "firstSent (storeChunk_Guppy d sq dat) = firstSent d"
  "lastSent (storeChunk_Guppy d sq dat) = lastSent d"
  "length (chunks (storeChunk_Guppy d sq dat)) = length (chunks d)"
  by (auto simp: storeChunk_Guppy_def Let_def split: prod.splits)

lemma storeChunk_firstSeq:
  "firstSeq (storeChunk_Guppy d sq dat)
     = (if firstSeq d = 0 \<and> sq < INT_MAX then sq else firstSeq d)"
  by (auto simp: storeChunk_Guppy_def Let_def split: prod.splits)

lemma storeChunk_lastSeq:
  "lastSeq (storeChunk_Guppy d sq dat) = (if lastSeq d = 0 \<and> dat = [] then sq else lastSeq d)"
  by (auto simp: storeChunk_Guppy_def Let_def split: prod.splits)

lemma storeChunk_cases:
  "chunks (storeChunk_Guppy d sq dat) = chunks d
   \<or> (\<exists>j<length (chunks d).
        chunks (storeChunk_Guppy d sq dat) = (chunks d)[j := \<lparr>seq = sq, data = dat\<rparr>]
        \<and> sq \<notin> seq ` set (chunks d)
        \<and> \<not> (lastSeq d = 0 \<and> dat = [])
        \<and> \<not> (currentSeq d \<noteq> 0 \<and> sq \<le> currentSeq d)
        \<and> \<not> (firstSeq d \<noteq> 0 \<and> sq < firstSeq d)
        \<and> \<not> (lastSeq d \<noteq> 0 \<and> sq > lastSeq d))"
proof -
  define d1 where "d1 = (if firstSeq d = 0 \<and> sq < INT_MAX then d\<lparr>firstSeq := sq\<rparr> else d)"
  obtain f s m ms where
    r: "scanSlots (firstSeq d1) (lastSeq d1) sq 0 (chunks d1) (- 1) (- 1) (- 1) = (f, s, m, ms)"
    by (metis prod_cases4)
  have c1: "chunks d1 = chunks d" "lastSeq d1 = lastSeq d" "currentSeq d1 = currentSeq d"
    by (simp_all add: d1_def)
  have f: "f = (sq \<in> seq ` set (chunks d))"
    using scanSlots_found [of "firstSeq d1" "lastSeq d1" sq 0 "chunks d1" "- 1" "- 1" "- 1"] r c1
    by simp
  from scanSlots_index [OF r] c1
  have s: "s = - 1 \<or> (\<exists>j<length (chunks d). s = int j)"
    and ms: "ms = - 1 \<or> (\<exists>j<length (chunks d). ms = int j)"
    by simp_all
  define s' where "s' = (if sq = firstSeq d1 \<and> s < 0 then ms else s)"
  from s ms have s': "s' = - 1 \<or> (\<exists>j<length (chunks d). s' = int j)"
    by (auto simp: s'_def)
  have fs: "firstSeq d \<noteq> 0 \<Longrightarrow> firstSeq d1 = firstSeq d" by (simp add: d1_def)
  show ?thesis
  proof (cases "(lastSeq d = 0 \<and> dat = []) \<or> (currentSeq d \<noteq> 0 \<and> sq \<le> currentSeq d)
      \<or> (firstSeq d1 \<noteq> 0 \<and> sq < firstSeq d1) \<or> (lastSeq d \<noteq> 0 \<and> sq > lastSeq d) \<or> f \<or> s' < 0")
    case True
    then have "chunks (storeChunk_Guppy d sq dat) = chunks d"
      using r c1 unfolding storeChunk_Guppy_def Let_def d1_def [symmetric] s'_def
      by (auto split: prod.splits)
    then show ?thesis by simp
  next
    case False
    with s' obtain j where j: "j < length (chunks d)" "s' = int j" by auto
    from False have "chunks (storeChunk_Guppy d sq dat) = (chunks d)[nat s' := \<lparr>seq = sq, data = dat\<rparr>]"
      using r c1 unfolding storeChunk_Guppy_def Let_def d1_def [symmetric] s'_def
      by (auto split: prod.splits)
    with j have "chunks (storeChunk_Guppy d sq dat) = (chunks d)[j := \<lparr>seq = sq, data = dat\<rparr>]"
      by simp
    moreover from False f have "sq \<notin> seq ` set (chunks d)" by simp
    moreover from False fs have "\<not> (firstSeq d \<noteq> 0 \<and> sq < firstSeq d)" by auto
    ultimately show ?thesis using j False by blast
  qed
qed

lemma storeChunk_found:
  "sq \<in> seq ` set (chunks d) \<Longrightarrow> chunks (storeChunk_Guppy d sq dat) = chunks d"
  using storeChunk_cases [of d sq dat] by auto

section \<open>Properties of the drain\<close>

text \<open>
  \<open>deliverable\<close> is the test of the \<^verbatim>\<open>if\<close> in the loop of \<^verbatim>\<open>processChunks_Guppy_\<close>. A pass
  appends chunks with consecutive numbers, never lowers \<open>currentSeq\<close>, frees the slots it
  appends and leaves the others; the loop inherits these properties pass by pass.
\<close>

definition deliverable :: "int \<Rightarrow> int \<Rightarrow> GuppyChunk \<Rightarrow> bool" where
  "deliverable fs cur c =
     ((cur \<noteq> 0 \<and> cur < INT_MAX \<and> seq c = cur + 1) \<or> (cur = 0 \<and> fs > 0 \<and> seq c = fs))"

lemma scanChunks_Cons:
  "scanChunks fs n i (c # cs) cur bd nu ag =
     (if deliverable fs cur c
      then (case scanChunks fs n (Suc i) cs (seq c) (bd @ data c) True (i < n - 1) of
              (cs', cur', bd', nu', ag', hits) \<Rightarrow>
                (freeChunk # cs', cur', bd', nu', ag', c # hits))
      else (case scanChunks fs n (Suc i) cs cur bd nu ag of
              (cs', cur', bd', nu', ag', hits) \<Rightarrow>
                (c # cs', cur', bd', nu', ag', hits)))"
  by (simp add: deliverable_def)

lemma scanChunks_basic:
  "scanChunks fs n i cs cur bd nu ag = (cs', cur', bd', nu', ag', hits) \<Longrightarrow>
     length cs' = length cs \<and> bd' = bd @ concat (map data hits) \<and> nu' = (nu \<or> hits \<noteq> [])
     \<and> cur \<le> cur' \<and> set hits \<subseteq> set cs \<and> set cs' \<subseteq> insert freeChunk (set cs)
     \<and> (hits = [] \<longrightarrow> cs' = cs \<and> cur' = cur \<and> ag' = ag)"
proof (induction cs arbitrary: i cur bd nu ag cs' cur' bd' nu' ag' hits)
  case Nil
  then show ?case by simp
next
  case (Cons c cs)
  show ?case
  proof (cases "deliverable fs cur c")
    case True
    then have le: "cur \<le> seq c" by (auto simp: deliverable_def)
    from Cons.prems True obtain cs1 h1 where
      r: "scanChunks fs n (Suc i) cs (seq c) (bd @ data c) True (i < n - 1)
         = (cs1, cur', bd', nu', ag', h1)"
      and e: "cs' = freeChunk # cs1" "hits = c # h1"
      by (auto simp: scanChunks_Cons simp del: scanChunks.simps(2) split: prod.splits)
    from Cons.IH [OF r] le e show ?thesis by auto
  next
    case False
    with Cons.prems obtain cs1 where
      r: "scanChunks fs n (Suc i) cs cur bd nu ag = (cs1, cur', bd', nu', ag', hits)"
      and e: "cs' = c # cs1"
      by (auto simp: scanChunks_Cons simp del: scanChunks.simps(2) split: prod.splits)
    from Cons.IH [OF r] e show ?thesis by auto
  qed
qed

text \<open>The sequence numbers appended by one pass are consecutive.\<close>

lemma scanChunks_chain:
  "scanChunks fs n i cs cur bd nu ag = (cs', cur', bd', nu', ag', hits) \<Longrightarrow> 0 \<le> cur \<Longrightarrow>
     (cur \<noteq> 0 \<longrightarrow> map seq hits = [cur + 1..cur'])
     \<and> (cur = 0 \<longrightarrow> (hits = [] \<and> cur' = 0) \<or> (0 < fs \<and> fs \<le> cur' \<and> map seq hits = [fs..cur']))"
proof (induction cs arbitrary: i cur bd nu ag cs' cur' bd' nu' ag' hits)
  case Nil
  then show ?case by simp
next
  case (Cons c cs)
  show ?case
  proof (cases "deliverable fs cur c")
    case True
    from Cons.prems True obtain cs1 h1 where
      r: "scanChunks fs n (Suc i) cs (seq c) (bd @ data c) True (i < n - 1)
         = (cs1, cur', bd', nu', ag', h1)"
      and e: "cs' = freeChunk # cs1" "hits = c # h1"
      by (auto simp: scanChunks_Cons simp del: scanChunks.simps(2) split: prod.splits)
    from True Cons.prems(2) have pos: "0 < seq c" by (auto simp: deliverable_def)
    from scanChunks_basic [OF r] have le: "seq c \<le> cur'" by simp
    from Cons.IH [OF r] pos have h1: "map seq h1 = [seq c + 1..cur']" by simp
    have "map seq hits = [seq c..cur']"
      using h1 e le by (simp add: upto_rec1)
    with True le show ?thesis by (auto simp: deliverable_def)
  next
    case False
    with Cons.prems obtain cs1 where
      r: "scanChunks fs n (Suc i) cs cur bd nu ag = (cs1, cur', bd', nu', ag', hits)"
      by (auto simp: scanChunks_Cons simp del: scanChunks.simps(2) split: prod.splits)
    from Cons.IH [OF r Cons.prems(2)] show ?thesis .
  qed
qed

definition nonzeroSeqs :: "GuppyChunk list \<Rightarrow> int list" where
  "nonzeroSeqs cs = filter (\<lambda>s. s \<noteq> 0) (map seq cs)"

lemma nonzeroSeqs_simps [simp]:
  "nonzeroSeqs [] = []"
  "nonzeroSeqs (c # cs) = (if seq c \<noteq> 0 then seq c # nonzeroSeqs cs else nonzeroSeqs cs)"
  by (simp_all add: nonzeroSeqs_def)

lemma set_nonzeroSeqs: "set (nonzeroSeqs cs) = seq ` set cs - {0}"
  by (auto simp: nonzeroSeqs_def)

lemma scanChunks_distinct:
  "scanChunks fs n i cs cur bd nu ag = (cs', cur', bd', nu', ag', hits) \<Longrightarrow>
     distinct (nonzeroSeqs cs) \<Longrightarrow> distinct (nonzeroSeqs cs')"
proof (induction cs arbitrary: i cur bd nu ag cs' cur' bd' nu' ag' hits)
  case Nil
  then show ?case by simp
next
  case (Cons c cs)
  from Cons.prems(2) have dt: "distinct (nonzeroSeqs cs)" by (simp split: if_splits)
  show ?case
  proof (cases "deliverable fs cur c")
    case True
    from Cons.prems True obtain cs1 h1 where
      r: "scanChunks fs n (Suc i) cs (seq c) (bd @ data c) True (i < n - 1)
         = (cs1, cur', bd', nu', ag', h1)"
      and e: "cs' = freeChunk # cs1"
      by (auto simp: scanChunks_Cons simp del: scanChunks.simps(2) split: prod.splits)
    from Cons.IH [OF r dt] e show ?thesis by simp
  next
    case False
    with Cons.prems obtain cs1 where
      r: "scanChunks fs n (Suc i) cs cur bd nu ag = (cs1, cur', bd', nu', ag', hits)"
      and e: "cs' = c # cs1"
      by (auto simp: scanChunks_Cons simp del: scanChunks.simps(2) split: prod.splits)
    from scanChunks_basic [OF r] have "set cs1 \<subseteq> insert freeChunk (set cs)" by simp
    then have "set (nonzeroSeqs cs1) \<subseteq> set (nonzeroSeqs cs)"
      by (auto simp: set_nonzeroSeqs)
    with Cons.IH [OF r dt] Cons.prems(2) e show ?thesis by (auto split: if_splits)
  qed
qed

text \<open>After a pass, every occupied slot is above the new \<open>currentSeq\<close>.\<close>

lemma scanChunks_above:
  "scanChunks fs n i cs cur bd nu ag = (cs', cur', bd', nu', ag', hits) \<Longrightarrow> 0 \<le> cur \<Longrightarrow>
     distinct (nonzeroSeqs cs) \<Longrightarrow> \<forall>c\<in>set cs. seq c = 0 \<or> cur < seq c \<Longrightarrow>
     \<forall>c\<in>set cs. seq c = 0 \<or> fs \<le> seq c \<Longrightarrow>
     \<forall>c\<in>set cs'. seq c = 0 \<or> cur' < seq c"
proof (induction cs arbitrary: i cur bd nu ag cs' cur' bd' nu' ag' hits)
  case Nil
  then show ?case by simp
next
  case (Cons c cs)
  from Cons.prems(3) have dt: "distinct (nonzeroSeqs cs)" by (simp split: if_splits)
  show ?case
  proof (cases "deliverable fs cur c")
    case True
    from Cons.prems True obtain cs1 h1 where
      r: "scanChunks fs n (Suc i) cs (seq c) (bd @ data c) True (i < n - 1)
         = (cs1, cur', bd', nu', ag', h1)"
      and e: "cs' = freeChunk # cs1"
      by (auto simp: scanChunks_Cons simp del: scanChunks.simps(2) split: prod.splits)
    from True Cons.prems(2) have pos: "0 < seq c" by (auto simp: deliverable_def)
    have "\<forall>x\<in>set cs. seq x = 0 \<or> seq c < seq x"
    proof
      fix x assume x: "x \<in> set cs"
      show "seq x = 0 \<or> seq c < seq x"
      proof (cases "seq x = 0")
        case True
        then show ?thesis by simp
      next
        case False
        with x have "seq x \<in> set (nonzeroSeqs cs)" by (simp add: set_nonzeroSeqs)
        with Cons.prems(3) pos have ne: "seq x \<noteq> seq c" by auto
        from Cons.prems(4,5) x False have "cur < seq x" "fs \<le> seq x" by auto
        with True ne show ?thesis by (auto simp: deliverable_def)
      qed
    qed
    from Cons.IH [OF r _ dt this] pos Cons.prems(5) e show ?thesis by simp
  next
    case False
    with Cons.prems obtain cs1 where
      r: "scanChunks fs n (Suc i) cs cur bd nu ag = (cs1, cur', bd', nu', ag', hits)"
      and e: "cs' = c # cs1"
      by (auto simp: scanChunks_Cons simp del: scanChunks.simps(2) split: prod.splits)
    from Cons.IH [OF r Cons.prems(2) dt] Cons.prems(4,5)
    have tl: "\<forall>c\<in>set cs1. seq c = 0 \<or> cur' < seq c" by simp
    have "seq c = 0 \<or> cur' < seq c"
    proof (cases "seq c = 0 \<or> hits = []")
      case True
      with scanChunks_basic [OF r] Cons.prems(4) show ?thesis by auto
    next
      case nz: False
      then have nin: "seq c \<notin> seq ` set cs"
        using Cons.prems(3) by (auto simp: set_nonzeroSeqs)
      from scanChunks_basic [OF r] have sub: "set hits \<subseteq> set cs" by simp
      from Cons.prems(4,5) nz have lo: "cur < seq c" "fs \<le> seq c" by auto
      from scanChunks_chain [OF r Cons.prems(2)] nz
      consider "cur \<noteq> 0" "map seq hits = [cur + 1..cur']"
        | "cur = 0" "map seq hits = [fs..cur']"
        by auto
      then show ?thesis
      proof cases
        case 1
        show ?thesis
        proof (rule ccontr)
          assume "\<not> (seq c = 0 \<or> cur' < seq c)"
          with lo have "seq c \<in> set [cur + 1..cur']" by simp
          with 1 have "seq c \<in> seq ` set hits" by (metis set_map)
          with sub nin show False by auto
        qed
      next
        case 2
        show ?thesis
        proof (rule ccontr)
          assume "\<not> (seq c = 0 \<or> cur' < seq c)"
          with lo have "seq c \<in> set [fs..cur']" by simp
          with 2 have "seq c \<in> seq ` set hits" by (metis set_map)
          with sub nin show False by auto
        qed
      qed
    qed
    with tl e show ?thesis by simp
  qed
qed

subsection \<open>The loop\<close>

lemma drainPass_frame:
  assumes "drainPass d nu = (d', nu', ag, hits)"
  shows "state d' = state d" "firstSeq d' = firstSeq d" "lastSeq d' = lastSeq d"
    "socket d' = socket d" "meta d' = meta d" "timer d' = timer d" "url d' = url d"
    "firstSent d' = firstSent d" "lastSent d' = lastSent d"
  using assms by (auto simp: drainPass_def split: prod.splits)

lemma drainPass_scan:
  assumes "drainPass d nu = (d', nu', ag, hits)"
  shows "scanChunks (firstSeq d) (length (chunks d)) 0 (chunks d) (currentSeq d) (body d) nu False
           = (chunks d', currentSeq d', body d', nu', ag, hits)"
  using assms by (auto simp: drainPass_def split: prod.splits)

lemma drainLoop_induct [consumes 1, case_names stop again]:
  assumes run: "drainLoop d nu = (d', nu', hits)"
    and stop: "\<And>d nu d' nu' hits. drainPass d nu = (d', nu', False, hits) \<Longrightarrow> P d nu d' nu' hits"
    and again: "\<And>d nu d1 nu1 h1 d' nu' h2. drainPass d nu = (d1, nu1, True, h1) \<Longrightarrow>
        drainLoop d1 nu1 = (d', nu', h2) \<Longrightarrow> P d1 nu1 d' nu' h2 \<Longrightarrow> P d nu d' nu' (h1 @ h2)"
  shows "P d nu d' nu' hits"
  using run
proof (induction d nu arbitrary: d' nu' hits rule: drainLoop.induct)
  case (1 d nu)
  obtain d1 nu1 ag h1 where p: "drainPass d nu = (d1, nu1, ag, h1)"
    by (metis prod_cases4)
  show ?case
  proof (cases ag)
    case False
    with p "1.prems" have "d' = d1" "nu' = nu1" "hits = h1"
      by (simp_all add: drainLoop.simps [of d nu])
    with p False stop show ?thesis by simp
  next
    case True
    obtain d2 nu2 h2 where l: "drainLoop d1 nu1 = (d2, nu2, h2)"
      by (metis prod_cases3)
    with p True "1.prems" have e: "d' = d2" "nu' = nu2" "hits = h1 @ h2"
      by (simp_all add: drainLoop.simps [of d nu])
    from p True have p': "drainPass d nu = (d1, nu1, True, h1)" by simp
    have "P d1 nu1 d2 nu2 h2"
      using "1.IH" [OF p [symmetric] refl refl True l] .
    with again [OF p' l] e show ?thesis by simp
  qed
qed

lemma drainLoop_frame:
  assumes "drainLoop d nu = (d', nu', hits)"
  shows "state d' = state d \<and> firstSeq d' = firstSeq d \<and> lastSeq d' = lastSeq d
    \<and> socket d' = socket d \<and> meta d' = meta d \<and> timer d' = timer d \<and> url d' = url d
    \<and> firstSent d' = firstSent d \<and> lastSent d' = lastSent d
    \<and> length (chunks d') = length (chunks d)"
  using assms
proof (induction rule: drainLoop_induct)
  case (stop d nu d' nu' hits)
  with drainPass_frame [OF stop] scanChunks_basic [OF drainPass_scan [OF stop]]
  show ?case by simp
next
  case (again d nu d1 nu1 h1 d' nu' h2)
  with drainPass_frame [OF again(1)] scanChunks_basic [OF drainPass_scan [OF again(1)]]
  show ?case by simp
qed

lemma drainLoop_body:
  assumes "drainLoop d nu = (d', nu', hits)"
  shows "body d' = body d @ concat (map data hits) \<and> nu' = (nu \<or> hits \<noteq> [])
    \<and> currentSeq d \<le> currentSeq d'"
  using assms
proof (induction rule: drainLoop_induct)
  case (stop d nu d' nu' hits)
  with scanChunks_basic [OF drainPass_scan [OF stop]]
  show ?case by simp
next
  case (again d nu d1 nu1 h1 d' nu' h2)
  with scanChunks_basic [OF drainPass_scan [OF again(1)]]
  show ?case by auto
qed

lemma upto_append: "(a::int) \<le> b + 1 \<Longrightarrow> b \<le> c \<Longrightarrow> [a..b] @ [b + 1..c] = [a..c]"
proof (cases "a \<le> b")
  case True
  assume "b \<le> c"
  with True show ?thesis by (simp add: upto_split2 [of a b c])
next
  case False
  assume "a \<le> b + 1"
  with False have "a = b + 1" by simp
  then show ?thesis by simp
qed

lemma drainLoop_chain:
  assumes "drainLoop d nu = (d', nu', hits)" and "0 \<le> currentSeq d"
  shows "(currentSeq d \<noteq> 0 \<longrightarrow> map seq hits = [currentSeq d + 1..currentSeq d'])
     \<and> (currentSeq d = 0 \<longrightarrow> (hits = [] \<and> currentSeq d' = 0)
           \<or> (0 < firstSeq d \<and> firstSeq d \<le> currentSeq d'
               \<and> map seq hits = [firstSeq d..currentSeq d']))"
  using assms
proof (induction rule: drainLoop_induct)
  case (stop d nu d' nu' hits)
  from scanChunks_chain [OF drainPass_scan [OF stop(1)] stop(2)] show ?case .
next
  case (again d nu d1 nu1 h1 d' nu' h2)
  note p = drainPass_scan [OF again(1)]
  from scanChunks_basic [OF p] have m1: "currentSeq d \<le> currentSeq d1" by simp
  with again(4) have nn: "0 \<le> currentSeq d1" by simp
  from drainLoop_body [OF again(2)] have m2: "currentSeq d1 \<le> currentSeq d'" by simp
  from drainPass_frame [OF again(1)] have fs: "firstSeq d1 = firstSeq d" by simp
  note c1 = scanChunks_chain [OF p again(4)]
  note c2 = again(3) [OF nn]
  show ?case
  proof (cases "currentSeq d = 0")
    case False
    with m1 again(4) have "currentSeq d1 \<noteq> 0" by simp
    with c1 c2 False have "map seq h1 = [currentSeq d + 1..currentSeq d1]"
      "map seq h2 = [currentSeq d1 + 1..currentSeq d']" by simp_all
    with m1 m2 False show ?thesis by (simp add: upto_append)
  next
    case True
    show ?thesis
    proof (cases "currentSeq d1 = 0")
      case z: True
      with c1 True have "h1 = []"
        by auto
      with c2 z fs True show ?thesis by simp
    next
      case nz: False
      with c1 True have a: "0 < firstSeq d" "firstSeq d \<le> currentSeq d1"
        "map seq h1 = [firstSeq d..currentSeq d1]" by auto
      from c2 nz have "map seq h2 = [currentSeq d1 + 1..currentSeq d']" by simp
      with a m2 True show ?thesis by (simp add: upto_append)
    qed
  qed
qed

subsection \<open>The invariant of the reorder slots\<close>

definition windowInv :: "Guppy \<Rightarrow> bool" where
  "windowInv d =
     (0 \<le> currentSeq d \<and> 0 \<le> firstSeq d \<and> distinct (nonzeroSeqs (chunks d))
      \<and> (\<forall>c\<in>set (chunks d). seq c = 0
            \<or> (currentSeq d < seq c \<and> firstSeq d \<le> seq c
                \<and> (firstSeq d = 0 \<longrightarrow> INT_MAX \<le> seq c))))"

lemma drainPass_windowInv:
  assumes p: "drainPass d nu = (d', nu', ag, hits)" and inv: "windowInv d"
  shows "windowInv d'"
proof -
  note s = drainPass_scan [OF p]
  note f = drainPass_frame [OF p]
  from inv have a: "0 \<le> currentSeq d" "distinct (nonzeroSeqs (chunks d))"
    "\<forall>c\<in>set (chunks d). seq c = 0 \<or> currentSeq d < seq c"
    "\<forall>c\<in>set (chunks d). seq c = 0 \<or> firstSeq d \<le> seq c"
    by (auto simp: windowInv_def)
  from scanChunks_above [OF s a] have ab: "\<forall>c\<in>set (chunks d'). seq c = 0 \<or> currentSeq d' < seq c" .
  from scanChunks_distinct [OF s a(2)] have dt: "distinct (nonzeroSeqs (chunks d'))" .
  from scanChunks_basic [OF s] have m: "currentSeq d \<le> currentSeq d'"
    and sub: "set (chunks d') \<subseteq> insert freeChunk (set (chunks d))" by simp_all
  have "\<forall>c\<in>set (chunks d'). seq c = 0
            \<or> (firstSeq d \<le> seq c \<and> (firstSeq d = 0 \<longrightarrow> INT_MAX \<le> seq c))"
    using sub inv by (auto simp: windowInv_def)
  with ab dt m a(1) inv f show ?thesis by (auto simp: windowInv_def)
qed

lemma drainLoop_windowInv:
  assumes "drainLoop d nu = (d', nu', hits)" and "windowInv d"
  shows "windowInv d'"
  using assms
proof (induction rule: drainLoop_induct)
  case (stop d nu d' nu' hits)
  then show ?case by (rule drainPass_windowInv)
next
  case (again d nu d1 nu1 h1 d' nu' h2)
  from again(3) [OF drainPass_windowInv [OF again(1) again(4)]] show ?case .
qed

lemma drainLoop_seqs:
  assumes "drainLoop d nu = (d', nu', hits)"
  shows "seq ` set (chunks d') \<subseteq> insert 0 (seq ` set (chunks d))
    \<and> seq ` set hits \<subseteq> insert 0 (seq ` set (chunks d))"
  using assms
proof (induction rule: drainLoop_induct)
  case (stop d nu d' nu' hits)
  from scanChunks_basic [OF drainPass_scan [OF stop]] show ?case by auto
next
  case (again d nu d1 nu1 h1 d' nu' h2)
  from scanChunks_basic [OF drainPass_scan [OF again(1)]]
  have "set h1 \<subseteq> set (chunks d)" "set (chunks d1) \<subseteq> insert freeChunk (set (chunks d))"
    by simp_all
  then have h1: "seq ` set h1 \<subseteq> insert 0 (seq ` set (chunks d))"
    and c1: "seq ` set (chunks d1) \<subseteq> insert 0 (seq ` set (chunks d))" by auto
  from c1 have c1': "insert 0 (seq ` set (chunks d1)) \<subseteq> insert 0 (seq ` set (chunks d))"
    by blast
  from again(3) have b1: "seq ` set (chunks d') \<subseteq> insert 0 (seq ` set (chunks d1))"
    and b2: "seq ` set h2 \<subseteq> insert 0 (seq ` set (chunks d1))" by simp_all
  have "seq ` set (chunks d') \<subseteq> insert 0 (seq ` set (chunks d))"
    by (rule subset_trans [OF b1 c1'])
  moreover have "seq ` set h2 \<subseteq> insert 0 (seq ` set (chunks d))"
    by (rule subset_trans [OF b2 c1'])
  ultimately show ?case using h1 by (simp add: image_Un)
qed

subsection \<open>\<open>processChunks_Guppy\<close>\<close>

lemma processChunks_drain:
  assumes "drainLoop d nu = (d', nu', hits)"
  shows "processChunks_Guppy d nu =
     (if lastSeq d \<noteq> 0 \<and> currentSeq d' = lastSeq d - 1
      then d'\<lparr>state := finished_GuppyState\<rparr> else d', nu')"
  using assms drainLoop_frame [OF assms] by (simp add: processChunks_Guppy_def)

lemma processChunks_frame:
  "firstSeq (fst (processChunks_Guppy d nu)) = firstSeq d"
  "lastSeq (fst (processChunks_Guppy d nu)) = lastSeq d"
  "socket (fst (processChunks_Guppy d nu)) = socket d"
  "meta (fst (processChunks_Guppy d nu)) = meta d"
  "timer (fst (processChunks_Guppy d nu)) = timer d"
  "length (chunks (fst (processChunks_Guppy d nu))) = length (chunks d)"
  "state (fst (processChunks_Guppy d nu)) = state d
     \<or> state (fst (processChunks_Guppy d nu)) = finished_GuppyState"
  "currentSeq d \<le> currentSeq (fst (processChunks_Guppy d nu))"
proof -
  obtain d' nu' hits where l: "drainLoop d nu = (d', nu', hits)" by (metis prod_cases3)
  note f = drainLoop_frame [OF l] and b = drainLoop_body [OF l] and p = processChunks_drain [OF l]
  show "firstSeq (fst (processChunks_Guppy d nu)) = firstSeq d"
    "lastSeq (fst (processChunks_Guppy d nu)) = lastSeq d"
    "socket (fst (processChunks_Guppy d nu)) = socket d"
    "meta (fst (processChunks_Guppy d nu)) = meta d"
    "timer (fst (processChunks_Guppy d nu)) = timer d"
    "length (chunks (fst (processChunks_Guppy d nu))) = length (chunks d)"
    "state (fst (processChunks_Guppy d nu)) = state d
       \<or> state (fst (processChunks_Guppy d nu)) = finished_GuppyState"
    "currentSeq d \<le> currentSeq (fst (processChunks_Guppy d nu))"
    using f b by (simp_all add: p)
qed

lemma windowInv_state [simp]: "windowInv (d\<lparr>state := s\<rparr>) = windowInv d"
  by (simp add: windowInv_def)

lemma processChunks_windowInv:
  "windowInv d \<Longrightarrow> windowInv (fst (processChunks_Guppy d nu))"
proof -
  assume inv: "windowInv d"
  obtain d' nu' hits where l: "drainLoop d nu = (d', nu', hits)" by (metis prod_cases3)
  from drainLoop_windowInv [OF l inv] show ?thesis
    by (simp add: processChunks_drain [OF l])
qed

section \<open>Runs of admissions and drains\<close>

text \<open>
  A run is a list of calls of \<^verbatim>\<open>storeChunk_Guppy_\<close> and \<^verbatim>\<open>processChunks_Guppy_\<close> in any
  order; it returns the session and the chunks its drains appended to the body.
\<close>

datatype bufferOp = Admit int bytes | Drain

fun runOps :: "Guppy \<Rightarrow> bufferOp list \<Rightarrow> Guppy \<times> GuppyChunk list" where
  "runOps d [] = (d, [])"
| "runOps d (Admit sq dat # ops) = runOps (storeChunk_Guppy d sq dat) ops"
| "runOps d (Drain # ops) =
     (case runOps (fst (processChunks_Guppy d False)) ops of
        (d', log) \<Rightarrow> (d', appended d @ log))"

lemma runOps_firstSeq:
  "firstSeq d \<noteq> 0 \<Longrightarrow> firstSeq (fst (runOps d ops)) = firstSeq d"
proof (induction ops arbitrary: d)
  case Nil
  then show ?case by simp
next
  case (Cons op ops)
  show ?case
  proof (cases op)
    case (Admit sq dat)
    with Cons show ?thesis by (simp add: storeChunk_firstSeq)
  next
    case Drain
    with Cons show ?thesis by (simp add: processChunks_frame case_prod_unfold)
  qed
qed

lemma runOps_delivered:
  assumes "runOps d ops = (d', log)" and "0 \<le> currentSeq d"
  shows "currentSeq d \<le> currentSeq d'
    \<and> body d' = body d @ concat (map data log)
    \<and> map seq log =
        (if currentSeq d' = 0 then []
         else if currentSeq d = 0 then [firstSeq d'..currentSeq d']
         else [currentSeq d + 1..currentSeq d'])"
  using assms
proof (induction ops arbitrary: d d' log)
  case Nil
  then show ?case by simp
next
  case (Cons op ops)
  show ?case
  proof (cases op)
    case (Admit sq dat)
    with Cons.prems have r: "runOps (storeChunk_Guppy d sq dat) ops = (d', log)" by simp
    from Cons.IH [OF r] Cons.prems(2) show ?thesis by simp
  next
    case Drain
    obtain d1 nu1 hits where l: "drainLoop d False = (d1, nu1, hits)" by (metis prod_cases3)
    define d2 where "d2 = fst (processChunks_Guppy d False)"
    have cur2: "currentSeq d2 = currentSeq d1" and body2: "body d2 = body d1"
      and fs2: "firstSeq d2 = firstSeq d"
      by (simp_all add: d2_def processChunks_drain [OF l] drainLoop_frame [OF l])
    have app: "appended d = hits" by (simp add: appended_def l)
    obtain log2 where r: "runOps d2 ops = (d', log2)" and lg: "log = hits @ log2"
      using Cons.prems(1) Drain app by (auto simp: d2_def split: prod.splits)
    note b = drainLoop_body [OF l]
    note c = drainLoop_chain [OF l Cons.prems(2)]
    from b Cons.prems(2) cur2 have nn: "0 \<le> currentSeq d2" by simp
    note ih = Cons.IH [OF r nn]
    from ih have m2: "currentSeq d2 \<le> currentSeq d'" by simp
    have bd: "body d' = body d @ concat (map data log)"
      using ih b body2 lg by simp
    have sq: "map seq log =
        (if currentSeq d' = 0 then []
         else if currentSeq d = 0 then [firstSeq d'..currentSeq d']
         else [currentSeq d + 1..currentSeq d'])"
    proof (cases "currentSeq d = 0")
      case False
      with Cons.prems(2) b cur2 m2 have p: "0 < currentSeq d" "currentSeq d2 \<noteq> 0" "currentSeq d' \<noteq> 0"
        by simp_all
      with c ih False cur2 have "map seq hits = [currentSeq d + 1..currentSeq d2]"
        "map seq log2 = [currentSeq d2 + 1..currentSeq d']" by simp_all
      with b cur2 m2 p False lg show ?thesis by (simp add: upto_append)
    next
      case True
      show ?thesis
      proof (cases "hits = []")
        case e: True
        with c True cur2 have "currentSeq d2 = 0"
          by auto
        with ih e lg True show ?thesis by simp
      next
        case ne: False
        with c True cur2 have a: "0 < firstSeq d" "firstSeq d \<le> currentSeq d2"
          "map seq hits = [firstSeq d..currentSeq d2]" by auto
        from a fs2 runOps_firstSeq [of d2 ops] r have fs': "firstSeq d' = firstSeq d" by simp
        from a m2 have p: "currentSeq d2 \<noteq> 0" "currentSeq d' \<noteq> 0" by simp_all
        with ih have "map seq log2 = [currentSeq d2 + 1..currentSeq d']" by simp
        with a m2 p True lg fs' show ?thesis by (simp add: upto_append)
      qed
    qed
    from b cur2 m2 bd sq show ?thesis by simp
  qed
qed

section \<open>The invariant is established and preserved\<close>

lemma set_nonzeroSeqs_update:
  "set (nonzeroSeqs (cs[j := y])) \<subseteq> insert (seq y) (set (nonzeroSeqs cs))"
proof -
  have "set (cs[j := y]) \<subseteq> insert y (set cs)" by (rule set_update_subset_insert)
  then show ?thesis by (auto simp: set_nonzeroSeqs)
qed

lemma distinct_nonzeroSeqs_update:
  "distinct (nonzeroSeqs cs) \<Longrightarrow> seq y \<notin> seq ` set cs \<Longrightarrow> distinct (nonzeroSeqs (cs[j := y]))"
proof (induction cs arbitrary: j)
  case Nil
  then show ?case by simp
next
  case (Cons c cs)
  from Cons.prems have d: "distinct (nonzeroSeqs cs)" and ny: "seq y \<notin> seq ` set cs"
    and nc: "seq c \<noteq> seq y"
    by (auto split: if_splits)
  show ?case
  proof (cases j)
    case 0
    with Cons.prems d show ?thesis by (auto simp: set_nonzeroSeqs)
  next
    case (Suc k)
    from Cons.prems(1) have "seq c \<noteq> 0 \<longrightarrow> seq c \<notin> set (nonzeroSeqs cs)"
      by (simp split: if_splits)
    with set_nonzeroSeqs_update [of cs k y] nc
    have "seq c \<noteq> 0 \<longrightarrow> seq c \<notin> set (nonzeroSeqs (cs[k := y]))" by auto
    with Cons.IH [OF d ny, of k] Suc show ?thesis by simp
  qed
qed

lemma storeChunk_windowInv:
  assumes inv: "windowInv d" and pos: "0 < sq"
  shows "windowInv (storeChunk_Guppy d sq dat)"
proof -
  let ?d' = "storeChunk_Guppy d sq dat"
  from inv have a: "0 \<le> currentSeq d" "0 \<le> firstSeq d" "distinct (nonzeroSeqs (chunks d))"
    and b: "\<And>c. c \<in> set (chunks d) \<Longrightarrow> seq c = 0
            \<or> (currentSeq d < seq c \<and> firstSeq d \<le> seq c
                \<and> (firstSeq d = 0 \<longrightarrow> INT_MAX \<le> seq c))"
    by (auto simp: windowInv_def)
  have fs: "firstSeq ?d' = (if firstSeq d = 0 \<and> sq < INT_MAX then sq else firstSeq d)"
    by (rule storeChunk_firstSeq)
  have old: "\<And>c. c \<in> set (chunks d) \<Longrightarrow> seq c = 0
            \<or> (currentSeq d < seq c \<and> firstSeq ?d' \<le> seq c
                \<and> (firstSeq ?d' = 0 \<longrightarrow> INT_MAX \<le> seq c))"
    using b pos by (fastforce simp: fs)
  from storeChunk_cases [of d sq dat]
  consider "chunks ?d' = chunks d"
    | j where "j < length (chunks d)" "chunks ?d' = (chunks d)[j := \<lparr>seq = sq, data = dat\<rparr>]"
        "sq \<notin> seq ` set (chunks d)" "\<not> (currentSeq d \<noteq> 0 \<and> sq \<le> currentSeq d)"
        "\<not> (firstSeq d \<noteq> 0 \<and> sq < firstSeq d)"
    by blast
  then show ?thesis
  proof cases
    case 1
    with a old pos show ?thesis by (auto simp: windowInv_def fs)
  next
    case 2
    have new: "currentSeq d < sq \<and> firstSeq ?d' \<le> sq \<and> (firstSeq ?d' = 0 \<longrightarrow> INT_MAX \<le> sq)"
      using 2(4,5) a pos by (auto simp: fs)
    have dt: "distinct (nonzeroSeqs (chunks ?d'))"
      using distinct_nonzeroSeqs_update [OF a(3), of "\<lparr>seq = sq, data = dat\<rparr>" j] 2(2,3) by simp
    have "\<And>c. c \<in> set (chunks ?d') \<Longrightarrow> seq c = 0
            \<or> (currentSeq d < seq c \<and> firstSeq ?d' \<le> seq c
                \<and> (firstSeq ?d' = 0 \<longrightarrow> INT_MAX \<le> seq c))"
    proof -
      fix c assume "c \<in> set (chunks ?d')"
      with 2(2) have "c = \<lparr>seq = sq, data = dat\<rparr> \<or> c \<in> set (chunks d)"
        using set_update_subset_insert [of "chunks d" j "\<lparr>seq = sq, data = dat\<rparr>"] by auto
      with old new show "seq c = 0
            \<or> (currentSeq d < seq c \<and> firstSeq ?d' \<le> seq c
                \<and> (firstSeq ?d' = 0 \<longrightarrow> INT_MAX \<le> seq c))" by auto
    qed
    with dt a pos show ?thesis by (auto simp: windowInv_def fs)
  qed
qed

lemma init_windowInv: "windowInv (init_Guppy d0)"
proof -
  have "nonzeroSeqs (map (\<lambda>_. freeChunk) cs) = []" for cs :: "GuppyChunk list"
    by (induction cs) simp_all
  then show ?thesis by (auto simp: windowInv_def init_Guppy_def)
qed

lemma matchedHeader_windowInv:
  assumes "windowInv d"
  shows "windowInv (matchedHeader d sq captured2 payload now)"
proof -
  have a: "windowInv (statusLine d sq captured2)"
    using assms by (simp add: statusLine_def windowInv_def Let_def)
  define d1 where "d1 = (if firstSeq d = 0 then statusLine d sq captured2 else d)"
  have b: "windowInv d1" using a assms by (simp add: d1_def)
  then have c: "windowInv ((ack_Guppy d1 sq)\<lparr>lastSent := now\<rparr>)"
    by (simp add: windowInv_def ack_Guppy_def)
  show ?thesis
    using b c storeChunk_windowInv [OF c, of sq payload]
    unfolding matchedHeader_def Let_def d1_def [symmetric] by auto
qed

lemma fst_afterChunks:
  "fst (afterChunks r) = (if state (fst r) \<noteq> inProgress_GuppyState then cancel_Guppy (fst r) else fst r)"
  by (simp add: afterChunks_def case_prod_unfold)

lemma processResponse_cases [case_names noop nomatch matched]:
  obtains "processResponse_Guppy d raw now nu = afterChunks (d, nu)"
  | k where "indexOfCStr_String raw CRLF = Some k" "matchString_metaPattern (take k raw) = None"
      "processResponse_Guppy d raw now nu
         = afterChunks (processChunks_Guppy (d\<lparr>state := invalidResponse_GuppyState\<rparr>) nu)"
  | k c1 c2 where "indexOfCStr_String raw CRLF = Some k"
      "matchString_metaPattern (take k raw) = Some (c1, c2)"
      "processResponse_Guppy d raw now nu
         = afterChunks (processChunks_Guppy
             (matchedHeader d (toInt_String c1) c2 (drop (k + 2) raw) now) nu)"
proof (cases "indexOfCStr_String raw CRLF")
  case None
  then have "processResponse_Guppy d raw now nu = afterChunks (d, nu)"
    by (simp add: processResponse_Guppy_def afterChunks_def)
  then show ?thesis by (rule that(1))
next
  case (Some k)
  then have ne: "raw \<noteq> []" by auto
  show ?thesis
  proof (cases "matchString_metaPattern (take k raw)")
    case None
    with Some ne have "processResponse_Guppy d raw now nu
         = afterChunks (processChunks_Guppy (d\<lparr>state := invalidResponse_GuppyState\<rparr>) nu)"
      by (simp add: processResponse_Guppy_def afterChunks_def)
    with Some None show ?thesis by (rule that(2))
  next
    case m: (Some p)
    obtain c1 c2 where p: "p = (c1, c2)" by (cases p)
    with Some m ne have "processResponse_Guppy d raw now nu
         = afterChunks (processChunks_Guppy
             (matchedHeader d (toInt_String c1) c2 (drop (k + 2) raw) now) nu)"
      by (simp add: processResponse_Guppy_def afterChunks_def)
    with Some m p show ?thesis using that(3) by simp
  qed
qed

lemma windowInv_cancel [simp]: "windowInv (cancel_Guppy d) = windowInv d"
  by (simp add: windowInv_def cancel_Guppy_def)

lemma processResponse_windowInv:
  assumes "windowInv d"
  shows "windowInv (fst (processResponse_Guppy d raw now nu))"
proof (cases rule: processResponse_cases [where d = d and raw = raw and now = now and nu = nu])
  case noop
  with assms show ?thesis by (simp add: fst_afterChunks)
next
  case (nomatch k)
  from assms have "windowInv (d\<lparr>state := invalidResponse_GuppyState\<rparr>)" by simp
  from processChunks_windowInv [OF this] nomatch show ?thesis by (simp add: fst_afterChunks)
next
  case (matched k c1 c2)
  from processChunks_windowInv [OF matchedHeader_windowInv [OF assms]] matched
  show ?thesis by (simp add: fst_afterChunks)
qed

fun positiveOp :: "bufferOp \<Rightarrow> bool" where
  "positiveOp (Admit sq dat) = (0 < sq)"
| "positiveOp Drain = True"

lemma runOps_windowInv:
  "windowInv d \<Longrightarrow> list_all positiveOp ops \<Longrightarrow> windowInv (fst (runOps d ops))"
proof (induction ops arbitrary: d)
  case Nil
  then show ?case by simp
next
  case (Cons op ops)
  show ?case
  proof (cases op)
    case (Admit sq dat)
    with Cons.prems have "windowInv (storeChunk_Guppy d sq dat)"
      by (simp add: storeChunk_windowInv)
    with Cons Admit show ?thesis by simp
  next
    case Drain
    from Cons.prems have "windowInv (fst (processChunks_Guppy d False))"
      by (simp add: processChunks_windowInv)
    with Cons Drain show ?thesis by (simp add: case_prod_unfold)
  qed
qed

lemma runOps_slots_undelivered:
  assumes inv: "windowInv d" and pos: "list_all positiveOp ops"
    and run: "runOps d ops = (d', log)"
  shows "\<forall>c\<in>set (chunks d'). seq c = 0 \<or> seq c \<notin> set (map seq log)"
proof
  fix c assume c: "c \<in> set (chunks d')"
  from runOps_windowInv [OF inv pos] run have inv': "windowInv d'" by simp
  with c have ab: "seq c = 0 \<or> currentSeq d' < seq c" by (auto simp: windowInv_def)
  from inv have nn: "0 \<le> currentSeq d" by (simp add: windowInv_def)
  from runOps_delivered [OF run nn]
  have "set (map seq log) \<subseteq> {x. x \<le> currentSeq d'}"
    by (auto split: if_splits)
  with ab show "seq c = 0 \<or> seq c \<notin> set (map seq log)" by auto
qed

section \<open>Properties of the parser\<close>

text \<open>
  Once \<open>firstSeq\<close> is known a call changes the state to \<open>invalidResponse_GuppyState\<close> or
  \<open>finished_GuppyState\<close> only. While it is unknown, the state after the header is the one
  of the status table.
\<close>

lemma afterChunks_fields [simp]:
  "state (fst (afterChunks r)) = state (fst r)"
  "meta (fst (afterChunks r)) = meta (fst r)"
  "firstSeq (fst (afterChunks r)) = firstSeq (fst r)"
  "lastSeq (fst (afterChunks r)) = lastSeq (fst r)"
  "currentSeq (fst (afterChunks r)) = currentSeq (fst r)"
  "chunks (fst (afterChunks r)) = chunks (fst r)"
  "body (fst (afterChunks r)) = body (fst r)"
  "socket (fst (afterChunks r)) = socket (fst r)"
  by (simp_all add: fst_afterChunks cancel_Guppy_def)

lemma matchedHeader_known:
  assumes "firstSeq d \<noteq> 0"
  shows "state (matchedHeader d sq captured2 payload now) = state d"
    and "firstSeq (matchedHeader d sq captured2 payload now) = firstSeq d"
  using assms by (simp_all add: matchedHeader_def Let_def ack_Guppy_def storeChunk_firstSeq)

lemma processResponse_known:
  assumes "firstSeq d \<noteq> 0"
  shows "firstSeq (fst (processResponse_Guppy d raw now nu)) = firstSeq d
    \<and> (state (fst (processResponse_Guppy d raw now nu)) = state d
        \<or> state (fst (processResponse_Guppy d raw now nu)) = invalidResponse_GuppyState
        \<or> state (fst (processResponse_Guppy d raw now nu)) = finished_GuppyState)"
proof (cases rule: processResponse_cases [where d = d and raw = raw and now = now and nu = nu])
  case noop
  then show ?thesis by simp
next
  case (nomatch k)
  with processChunks_frame(1,7) [of "d\<lparr>state := invalidResponse_GuppyState\<rparr>" nu]
  show ?thesis by auto
next
  case (matched k c1 c2)
  with processChunks_frame(1,7) [of "matchedHeader d (toInt_String c1) c2 (drop (k + 2) raw) now" nu]
    matchedHeader_known [OF assms, of "toInt_String c1" c2 "drop (k + 2) raw" now]
  show ?thesis by auto
qed

lemma processAll_known:
  assumes "firstSeq d \<noteq> 0" and "state d \<noteq> inProgress_GuppyState"
  shows "state (processAll d reads) \<noteq> inProgress_GuppyState
    \<and> (state (processAll d reads) = state d
        \<or> state (processAll d reads) = invalidResponse_GuppyState
        \<or> state (processAll d reads) = finished_GuppyState)"
  using assms
proof (induction reads arbitrary: d)
  case Nil
  then show ?case by simp
next
  case (Cons r reads)
  obtain raw now where r: "r = (raw, now)" by (cases r)
  define d1 where "d1 = fst (processResponse_Guppy d raw now False)"
  from processResponse_known [OF Cons.prems(1), of raw now False]
  have f: "firstSeq d1 \<noteq> 0"
    and s: "state d1 = state d \<or> state d1 = invalidResponse_GuppyState
        \<or> state d1 = finished_GuppyState"
    using Cons.prems(1) by (simp_all add: d1_def)
  from s Cons.prems(2) have n: "state d1 \<noteq> inProgress_GuppyState" by auto
  from Cons.IH [OF f n] s r show ?case by (auto simp: d1_def)
qed

subsection \<open>The status line\<close>

definition statusOf :: "int \<Rightarrow> GuppyState" where
  "statusOf code =
     (if code = 0 \<or> code = 5 then invalidResponse_GuppyState
      else if code = 1 then inputRequired_GuppyState
      else if code = 3 then redirect_GuppyState
      else if code = 4 then error_GuppyState
      else inProgress_GuppyState)"

definition metaOf :: "Guppy \<Rightarrow> int \<Rightarrow> string \<Rightarrow> string" where
  "metaOf d code captured2 =
     (if code = 0 \<or> code = 5 \<or> code = 4 then meta d else drop 1 captured2)"

lemma statusLine_fields [simp]:
  "state (statusLine d code captured2) = statusOf code"
  "meta (statusLine d code captured2) = metaOf d code captured2"
  "firstSeq (statusLine d code captured2) = firstSeq d"
  "lastSeq (statusLine d code captured2) = lastSeq d"
  "currentSeq (statusLine d code captured2) = currentSeq d"
  "chunks (statusLine d code captured2) = chunks d"
  "body (statusLine d code captured2) = body d"
  by (simp_all add: statusLine_def statusOf_def metaOf_def Let_def)

lemma matchedHeader_unknown:
  assumes "firstSeq d = 0"
  shows "state (matchedHeader d code captured2 payload now) = statusOf code"
    and "meta (matchedHeader d code captured2 payload now) = metaOf d code captured2"
    and "currentSeq (matchedHeader d code captured2 payload now) = currentSeq d"
    and "lastSeq (matchedHeader d code captured2 payload now)
           = (if 6 \<le> code \<and> lastSeq d = 0 \<and> payload = [] then code else lastSeq d)"
    and "firstSeq (matchedHeader d code captured2 payload now)
           = (if 6 \<le> code \<and> code < INT_MAX then code else 0)"
  using assms
  by (auto simp: matchedHeader_def Let_def ack_Guppy_def storeChunk_firstSeq storeChunk_lastSeq
      statusOf_def)

lemma processChunks_state:
  assumes "currentSeq d = 0"
    and "lastSeq d = 0 \<or> (6 \<le> lastSeq d \<and> (firstSeq d = 0 \<or> lastSeq d \<le> firstSeq d))"
  shows "state (fst (processChunks_Guppy d nu)) = state d"
    and "meta (fst (processChunks_Guppy d nu)) = meta d"
proof -
  obtain d' nu' hits where l: "drainLoop d nu = (d', nu', hits)" by (metis prod_cases3)
  from drainLoop_chain [OF l] assms(1)
  have "currentSeq d' = 0 \<or> (0 < firstSeq d \<and> firstSeq d \<le> currentSeq d')" by auto
  with assms(2) have "lastSeq d \<noteq> 0 \<longrightarrow> currentSeq d' \<noteq> lastSeq d - 1" by auto
  with drainLoop_frame [OF l] show "state (fst (processChunks_Guppy d nu)) = state d"
    and "meta (fst (processChunks_Guppy d nu)) = meta d"
    by (auto simp: processChunks_drain [OF l])
qed

subsection \<open>The body while nothing is delivered\<close>

lemma matchedHeader_body:
  "body (matchedHeader d sq captured2 payload now) = body d"
  "currentSeq (matchedHeader d sq captured2 payload now) = currentSeq d"
  by (simp_all add: matchedHeader_def Let_def ack_Guppy_def)

lemma processChunks_drain_fields:
  assumes "drainLoop d nu = (d', nu', hits)"
  shows "currentSeq (fst (processChunks_Guppy d nu)) = currentSeq d'"
    and "body (fst (processChunks_Guppy d nu)) = body d'"
    and "chunks (fst (processChunks_Guppy d nu)) = chunks d'"
  by (simp_all add: processChunks_drain [OF assms])

lemma processChunks_body_kept:
  assumes "0 \<le> currentSeq d" and "currentSeq (fst (processChunks_Guppy d nu)) = 0"
  shows "body (fst (processChunks_Guppy d nu)) = body d"
proof -
  obtain d' nu' hits where l: "drainLoop d nu = (d', nu', hits)" by (metis prod_cases3)
  note f = processChunks_drain_fields [OF l]
  from assms(2) have z: "currentSeq d' = 0" by (simp add: f)
  from drainLoop_body [OF l] z assms(1) have "currentSeq d = 0" by simp
  with drainLoop_chain [OF l assms(1)] z have "hits = []" by auto
  with drainLoop_body [OF l] show ?thesis by (simp add: f)
qed

lemma processResponse_currentSeq:
  "currentSeq d \<le> currentSeq (fst (processResponse_Guppy d raw now nu))"
proof (cases rule: processResponse_cases [where d = d and raw = raw and now = now and nu = nu])
  case noop
  then show ?thesis by simp
next
  case (nomatch k)
  with processChunks_frame(8) [of "d\<lparr>state := invalidResponse_GuppyState\<rparr>" nu]
  show ?thesis by simp
next
  case (matched k c1 c2)
  with processChunks_frame(8) [of "matchedHeader d (toInt_String c1) c2 (drop (k + 2) raw) now" nu]
  show ?thesis by (simp add: matchedHeader_body)
qed

lemma processResponse_body_kept:
  assumes "0 \<le> currentSeq d" and "currentSeq (fst (processResponse_Guppy d raw now nu)) = 0"
  shows "body (fst (processResponse_Guppy d raw now nu)) = body d"
proof (cases rule: processResponse_cases [where d = d and raw = raw and now = now and nu = nu])
  case noop
  then show ?thesis by simp
next
  case (nomatch k)
  with processChunks_body_kept [of "d\<lparr>state := invalidResponse_GuppyState\<rparr>" nu] assms
  show ?thesis by simp
next
  case (matched k c1 c2)
  with processChunks_body_kept [of "matchedHeader d (toInt_String c1) c2 (drop (k + 2) raw) now" nu]
    assms
  show ?thesis by (simp add: matchedHeader_body)
qed

lemma processAll_currentSeq: "currentSeq d \<le> currentSeq (processAll d reads)"
proof (induction reads arbitrary: d)
  case Nil
  then show ?case by simp
next
  case (Cons r reads)
  obtain raw now where r: "r = (raw, now)" by (cases r)
  from processResponse_currentSeq [of d raw now False]
    Cons.IH [of "fst (processResponse_Guppy d raw now False)"] r
  show ?case by simp
qed

lemma processAll_body_kept:
  "0 \<le> currentSeq d \<Longrightarrow> currentSeq (processAll d reads) = 0 \<Longrightarrow> body (processAll d reads) = body d"
proof (induction reads arbitrary: d)
  case Nil
  then show ?case by simp
next
  case (Cons r reads)
  obtain raw now where r: "r = (raw, now)" by (cases r)
  define d1 where "d1 = fst (processResponse_Guppy d raw now False)"
  from Cons.prems(2) r have z: "currentSeq (processAll d1 reads) = 0" by (simp add: d1_def)
  from processResponse_currentSeq [of d raw now False] Cons.prems(1)
  have nn: "0 \<le> currentSeq d1" by (simp add: d1_def)
  from processAll_currentSeq [of d1 reads] z nn have z1: "currentSeq d1 = 0" by simp
  from processResponse_body_kept [OF Cons.prems(1), of raw now False] z1
  have "body d1 = body d" by (simp add: d1_def)
  with Cons.IH [OF nn z] r show ?case by (simp add: d1_def)
qed

subsection \<open>Concrete evaluation\<close>

lemmas eval_defs =
  processResponse_Guppy_def CRLF_def matchString_metaPattern_def isDigit_def toInt_String_def
  decimalValue_def matchedHeader_def statusLine_def ack_Guppy_def formatInt_def natDigits.simps
  storeChunk_Guppy_def INT_MAX_def processChunks_Guppy_def drainLoop.simps drainPass_def
  cancel_Guppy_def

lemma replicate_8:
  "replicate 8 x = [x, x, x, x, x, x, x, x]"
  by (simp add: eval_nat_numeral)

definition openedSession :: Guppy where
  "openedSession = \<lparr>state = inProgress_GuppyState, url = ''guppy://host/doc'',
     socket = [''guppy://host/doc'' @ CRLF], body = [], meta = [],
     timer = 1, firstSent = 5, lastSent = 5,
     chunks = replicate 8 freeChunk, firstSeq = 0, lastSeq = 0, currentSeq = 0\<rparr>"

section \<open>A session whose first chunk was empty\<close>

text \<open>
  \<open>stuckAt s\<close>: both \<open>firstSeq\<close> and \<open>lastSeq\<close> are \<open>s\<close>, nothing but chunk \<open>s\<close> is buffered
  or delivered, and the state is not \<open>finished_GuppyState\<close>. Every call of the parser
  preserves it.
\<close>

definition stuckAt :: "int \<Rightarrow> Guppy \<Rightarrow> bool" where
  "stuckAt s d =
     (firstSeq d = s \<and> lastSeq d = s \<and> (currentSeq d = 0 \<or> currentSeq d = s)
      \<and> (\<forall>c\<in>set (chunks d). seq c = 0 \<or> seq c = s) \<and> state d \<noteq> finished_GuppyState)"

lemma scanChunks_all_free:
  "\<forall>c\<in>set cs. seq c = 0 \<Longrightarrow> cur \<noteq> - 1 \<Longrightarrow>
     scanChunks fs n i cs cur bd nu ag = (cs, cur, bd, nu, ag, [])"
  by (induction cs arbitrary: i) auto

lemma drainLoop_all_free:
  assumes "\<forall>c\<in>set (chunks d). seq c = 0" and "currentSeq d \<noteq> - 1"
  shows "drainLoop d nu = (d, nu, [])"
proof -
  have "drainPass d nu = (d, nu, False, [])"
    using assms by (simp add: drainPass_def scanChunks_all_free)
  then show ?thesis by (simp add: drainLoop.simps [of d nu])
qed

lemma storeChunk_stuck_other:
  assumes "stuckAt s d" and "s \<noteq> 0" and "sq \<noteq> s"
  shows "storeChunk_Guppy d sq dat = d"
  using assms by (auto simp: storeChunk_Guppy_def stuckAt_def Let_def)

lemma storeChunk_stuck:
  assumes st: "stuckAt s d" and nz: "s \<noteq> 0"
  shows "stuckAt s (storeChunk_Guppy d sq dat)"
proof (cases "sq = s")
  case False
  with storeChunk_stuck_other [OF st nz] st show ?thesis by simp
next
  case True
  from st nz have f: "firstSeq (storeChunk_Guppy d sq dat) = s"
    "lastSeq (storeChunk_Guppy d sq dat) = s"
    by (simp_all add: storeChunk_firstSeq storeChunk_lastSeq stuckAt_def)
  have "\<forall>c\<in>set (chunks (storeChunk_Guppy d sq dat)). seq c = 0 \<or> seq c = s"
  proof
    fix c assume c: "c \<in> set (chunks (storeChunk_Guppy d sq dat))"
    from storeChunk_cases [of d sq dat]
    consider "chunks (storeChunk_Guppy d sq dat) = chunks d"
      | j where "chunks (storeChunk_Guppy d sq dat) = (chunks d)[j := \<lparr>seq = sq, data = dat\<rparr>]"
      by blast
    then show "seq c = 0 \<or> seq c = s"
    proof cases
      case 1
      with c st show ?thesis by (auto simp: stuckAt_def)
    next
      case 2
      with c have "c = \<lparr>seq = sq, data = dat\<rparr> \<or> c \<in> set (chunks d)"
        using set_update_subset_insert [of "chunks d" j "\<lparr>seq = sq, data = dat\<rparr>"] by auto
      with st True show ?thesis by (auto simp: stuckAt_def)
    qed
  qed
  with f st show ?thesis by (simp add: stuckAt_def)
qed

lemma processChunks_stuck:
  assumes st: "stuckAt s d" and s6: "6 \<le> s"
  shows "stuckAt s (fst (processChunks_Guppy d nu))"
proof -
  obtain d' nu' hits where l: "drainLoop d nu = (d', nu', hits)" by (metis prod_cases3)
  note f = drainLoop_frame [OF l]
  from st s6 have nn: "0 \<le> currentSeq d" by (auto simp: stuckAt_def)
  from st have fl: "firstSeq d = s" "lastSeq d = s" by (simp_all add: stuckAt_def)
  from st have "seq ` set (chunks d) \<subseteq> {0, s}" by (auto simp: stuckAt_def)
  then have ins: "insert 0 (seq ` set (chunks d)) \<subseteq> {0, s}" by blast
  from drainLoop_seqs [OF l]
  have s1: "seq ` set (chunks d') \<subseteq> insert 0 (seq ` set (chunks d))"
    and s2: "seq ` set hits \<subseteq> insert 0 (seq ` set (chunks d))" by simp_all
  have cs': "seq ` set (chunks d') \<subseteq> {0, s}" by (rule subset_trans [OF s1 ins])
  have hs: "seq ` set hits \<subseteq> {0, s}" by (rule subset_trans [OF s2 ins])
  have cs: "\<forall>c\<in>set (chunks d'). seq c = 0 \<or> seq c = s"
  proof
    fix c assume "c \<in> set (chunks d')"
    then have "seq c \<in> seq ` set (chunks d')" by (rule imageI)
    with cs' have "seq c \<in> {0, s}" by (rule subsetD)
    then show "seq c = 0 \<or> seq c = s" by simp
  qed
  from drainLoop_body [OF l] have mono: "currentSeq d \<le> currentSeq d'" by simp
  have cur: "currentSeq d' = 0 \<or> currentSeq d' = s"
  proof (rule ccontr)
    assume n: "\<not> (currentSeq d' = 0 \<or> currentSeq d' = s)"
    from st consider "currentSeq d = 0" | "currentSeq d = s" by (auto simp: stuckAt_def)
    then have "s + 1 \<in> set (map seq hits)"
    proof cases
      case 1
      with drainLoop_chain [OF l nn] n fl
      have "s \<le> currentSeq d'" "map seq hits = [s..currentSeq d']" by auto
      with n show ?thesis by simp
    next
      case 2
      with drainLoop_chain [OF l nn] s6 have "map seq hits = [s + 1..currentSeq d']" by simp
      with n mono 2 show ?thesis by simp
    qed
    with hs s6 show False by auto
  qed
  from cur s6 have "currentSeq d' \<noteq> s - 1" by auto
  with cs cur f st fl show ?thesis
    by (simp add: processChunks_drain [OF l] stuckAt_def)
qed

lemma matchedHeader_stuck:
  assumes st: "stuckAt s d" and s6: "6 \<le> s"
  shows "stuckAt s (matchedHeader d sq captured2 payload now)"
proof -
  from st s6 have k: "firstSeq d \<noteq> 0" by (auto simp: stuckAt_def)
  have a: "stuckAt s ((ack_Guppy d sq)\<lparr>lastSent := now\<rparr>)"
    using st by (simp add: stuckAt_def ack_Guppy_def)
  from s6 have nz: "s \<noteq> 0" by simp
  show ?thesis
    using k st a storeChunk_stuck [OF a nz, of sq payload]
    by (simp add: matchedHeader_def Let_def)
qed

lemma processResponse_stuck:
  assumes st: "stuckAt s d" and s6: "6 \<le> s"
  shows "stuckAt s (fst (processResponse_Guppy d raw now nu))"
proof -
  have c: "stuckAt s (fst (afterChunks r)) = stuckAt s (fst r)" for r
    by (simp add: stuckAt_def)
  show ?thesis
  proof (cases rule: processResponse_cases [where d = d and raw = raw and now = now and nu = nu])
    case noop
    with st show ?thesis by (simp add: c)
  next
    case (nomatch k)
    from st have "stuckAt s (d\<lparr>state := invalidResponse_GuppyState\<rparr>)"
      by (simp add: stuckAt_def)
    from processChunks_stuck [OF this s6] nomatch show ?thesis by (simp add: c)
  next
    case (matched k c1 c2)
    from processChunks_stuck [OF matchedHeader_stuck [OF st s6] s6] matched
    show ?thesis by (simp add: c)
  qed
qed

lemma processAll_stuck:
  "stuckAt s d \<Longrightarrow> 6 \<le> s \<Longrightarrow> stuckAt s (processAll d reads)"
proof (induction reads arbitrary: d)
  case Nil
  then show ?case by simp
next
  case (Cons r reads)
  obtain raw now where r: "r = (raw, now)" by (cases r)
  from Cons.IH [OF processResponse_stuck [OF Cons.prems], of raw now False] Cons.prems(2) r
  show ?case by simp
qed

section \<open>A pass that hits nothing in a prefix of the slots\<close>

lemma scanChunks_prefix_miss:
  "\<forall>c\<in>set cs. \<not> deliverable fs cur c \<Longrightarrow>
     scanChunks fs n i (cs @ rest) cur bd nu ag =
       (case scanChunks fs n (i + length cs) rest cur bd nu ag of
          (cs', r) \<Rightarrow> (cs @ cs', r))"
  by (induction cs arbitrary: i)
    (simp_all add: scanChunks_Cons case_prod_unfold del: scanChunks.simps(2))

section \<open>The claims\<close>

subsection \<open>C1: the four-read scenario\<close>

definition session8 :: Guppy where
  "session8 = \<lparr>state = none_GuppyState, url = [], socket = [], body = [], meta = [], timer = 0,
     firstSent = 0, lastSent = 0, chunks = replicate 8 freeChunk,
     firstSeq = 0, lastSeq = 0, currentSeq = 0\<rparr>"

text \<open>
  C1. A session with at least three reorder slots is initialised, given its URL and
  opened. The read \<open>6 hello\<close>, CRLF, \<open>AB\<close> leaves the state \<open>inProgress_GuppyState\<close>,
  writes the acknowledgment \<open>6\<close> CRLF and makes the body \<open>AB\<close> with \<open>currentSeq = 6\<close>.
  The read of chunk 8 with payload \<open>EF\<close> puts the chunk into a slot and leaves the body
  and \<open>currentSeq\<close> as they are. The read of chunk 7 with payload \<open>CD\<close> drains both chunks:
  the body is \<open>ABCDEF\<close> and \<open>currentSeq = 8\<close>. The read of chunk 9 with no payload sets
  \<open>lastSeq = 9\<close>, and since \<open>currentSeq = lastSeq - 1\<close> the state is
  \<open>finished_GuppyState\<close>.
\<close>

theorem scenario:
  assumes n3: "3 \<le> length (chunks d0)"
  shows
    "let s0 = open_Guppy ((init_Guppy d0)\<lparr>url := u\<rparr>) t0 tid;
         s1 = fst (processResponse_Guppy s0 (''6 hello'' @ CRLF @ ''AB'') t1 False);
         s2 = fst (processResponse_Guppy s1 (''8'' @ CRLF @ ''EF'') t2 False);
         s3 = fst (processResponse_Guppy s2 (''7'' @ CRLF @ ''CD'') t3 False);
         s4 = fst (processResponse_Guppy s3 (''9'' @ CRLF) t4 False)
     in state s1 = inProgress_GuppyState \<and> socket s1 = socket s0 @ [''6'' @ CRLF]
        \<and> body s1 = ''AB'' \<and> currentSeq s1 = 6
        \<and> \<lparr>seq = 8, data = ''EF''\<rparr> \<in> set (chunks s2) \<and> body s2 = ''AB'' \<and> currentSeq s2 = 6
        \<and> body s3 = ''ABCDEF'' \<and> currentSeq s3 = 8
        \<and> lastSeq s4 = 9 \<and> currentSeq s4 = lastSeq s4 - 1 \<and> state s4 = finished_GuppyState"
proof -
  from n3 obtain k where k: "length (chunks d0) = Suc (Suc (Suc k))"
    by (metis Suc_le_D numeral_3_eq_3 Suc_le_mono)
  define s0 where "s0 = open_Guppy ((init_Guppy d0)\<lparr>url := u\<rparr>) t0 tid"
  define s1 where "s1 = fst (processResponse_Guppy s0 (''6 hello'' @ CRLF @ ''AB'') t1 False)"
  define s2 where "s2 = fst (processResponse_Guppy s1 (''8'' @ CRLF @ ''EF'') t2 False)"
  define s3 where "s3 = fst (processResponse_Guppy s2 (''7'' @ CRLF @ ''CD'') t3 False)"
  define s4 where "s4 = fst (processResponse_Guppy s3 (''9'' @ CRLF) t4 False)"
  have c0: "chunks s0 = replicate (Suc (Suc (Suc k))) freeChunk"
    using k by (simp add: s0_def open_Guppy_def init_Guppy_def request_Guppy_def Let_def
        map_replicate_const)
  have w0: "firstSeq s0 = 0" "lastSeq s0 = 0" "currentSeq s0 = 0" "body s0 = []"
    by (simp_all add: s0_def open_Guppy_def init_Guppy_def request_Guppy_def Let_def)
  have e1: "s1 = s0\<lparr>state := inProgress_GuppyState, meta := ''hello'',
        socket := socket s0 @ [''6'' @ CRLF],
        lastSent := t1, firstSeq := 6, currentSeq := 6, body := ''AB''\<rparr>"
    unfolding s1_def by (rule scenario_step1 [OF c0 w0])
  have e2: "s2 = s1\<lparr>socket := socket s1 @ [''8'' @ CRLF], lastSent := t2,
        chunks := \<lparr>seq = 8, data = ''EF''\<rparr> # replicate (Suc (Suc k)) freeChunk\<rparr>"
    unfolding s2_def by (rule scenario_step2 [where k = k]) (simp_all add: e1 c0 w0)
  have e3: "s3 = s2\<lparr>socket := socket s2 @ [''7'' @ CRLF], lastSent := t3,
        chunks := replicate (Suc (Suc (Suc k))) freeChunk, currentSeq := 8, body := ''ABCDEF''\<rparr>"
    unfolding s3_def by (rule scenario_step3 [where k = k]) (simp_all add: e2 e1 c0 w0)
  have e4: "s4 = s3\<lparr>socket := socket s3 @ [''9'' @ CRLF], lastSent := t4,
        lastSeq := 9, state := finished_GuppyState, timer := 0\<rparr>"
    unfolding s4_def by (rule scenario_step4 [where k = k]) (simp_all add: e3 e2 e1 c0 w0)
  have "state s1 = inProgress_GuppyState \<and> socket s1 = socket s0 @ [''6'' @ CRLF]
        \<and> body s1 = ''AB'' \<and> currentSeq s1 = 6
        \<and> \<lparr>seq = 8, data = ''EF''\<rparr> \<in> set (chunks s2) \<and> body s2 = ''AB'' \<and> currentSeq s2 = 6
        \<and> body s3 = ''ABCDEF'' \<and> currentSeq s3 = 8
        \<and> lastSeq s4 = 9 \<and> currentSeq s4 = lastSeq s4 - 1 \<and> state s4 = finished_GuppyState"
    by (simp add: e4 e3 e2 e1)
  then show ?thesis
    unfolding Let_def s0_def s1_def s2_def s3_def s4_def .
qed

theorem scenario_witness:
  "3 \<le> length (chunks session8) \<and>
   state (processAll (open_Guppy ((init_Guppy session8)\<lparr>url := ''guppy://host/doc''\<rparr>) 0 1)
      [(''6 hello'' @ CRLF @ ''AB'', 10), (''8'' @ CRLF @ ''EF'', 20),
       (''7'' @ CRLF @ ''CD'', 30), (''9'' @ CRLF, 40)]) = finished_GuppyState"
proof -
  have h: "3 \<le> length (chunks session8)" by (simp add: session8_def)
  show ?thesis
    using h scenario [OF h, of "''guppy://host/doc''" 0 1 10 20 30 40]
    by (simp add: Let_def)
qed

subsection \<open>C5: a chunk that is already buffered\<close>

definition dupSession :: Guppy where
  "dupSession = \<lparr>state = inProgress_GuppyState, url = [], socket = [], body = ''AB'', meta = [],
     timer = 1, firstSent = 0, lastSent = 0,
     chunks = [\<lparr>seq = 8, data = ''EF''\<rparr>, freeChunk],
     firstSeq = 6, lastSeq = 0, currentSeq = 6\<rparr>"

text \<open>
  C5 (as amended). When some slot already holds the sequence number of the chunk, the
  admission stores nothing: the slots, and with them the payload that slot holds, the
  body and every other field but the watermarks \<open>firstSeq\<close> and \<open>lastSeq\<close> are as before.
\<close>

theorem duplicate_kept:
  "sq \<in> seq ` set (chunks d) \<Longrightarrow>
     storeChunk_Guppy d sq dat
       = d\<lparr>firstSeq := firstSeq (storeChunk_Guppy d sq dat),
           lastSeq := lastSeq (storeChunk_Guppy d sq dat)\<rparr>"
  using storeChunk_found [of sq d dat] 
  by (intro Guppy.equality) simp_all

theorem duplicate_kept_witness:
  "8 \<in> seq ` set (chunks dupSession)
   \<and> storeChunk_Guppy dupSession 8 ''XY'' = dupSession"
proof -
  have h: "8 \<in> seq ` set (chunks dupSession)" by (simp add: dupSession_def)
  show ?thesis
    using h duplicate_kept [OF h, of "''XY''"]
    by (simp add: storeChunk_firstSeq storeChunk_lastSeq dupSession_def)
qed

text \<open>
  The claim as stated fails: a slot holds chunk 8 with payload \<open>EF\<close>, chunk 8 is inside
  the window, and after the admission of chunk 8 with payload \<open>XY\<close> no slot holds that
  payload.
\<close>

theorem duplicate_refresh_counterexample:
  "\<lparr>seq = 8, data = ''EF''\<rparr> \<in> set (chunks dupSession)
   \<and> currentSeq dupSession < 8 \<and> firstSeq dupSession \<le> 8 \<and> lastSeq dupSession = 0
   \<and> \<lparr>seq = 8, data = ''XY''\<rparr> \<notin> set (chunks (storeChunk_Guppy dupSession 8 ''XY''))
   \<and> chunks (storeChunk_Guppy dupSession 8 ''XY'') = chunks dupSession"
  by (simp add: dupSession_def storeChunk_Guppy_def INT_MAX_def freeChunk_def)

subsection \<open>C7: admission into a full buffer\<close>

definition fullSession :: Guppy where
  "fullSession = \<lparr>state = inProgress_GuppyState, url = [], socket = [], body = [], meta = [],
     timer = 1, firstSent = 0, lastSent = 0,
     chunks = [\<lparr>seq = 8, data = ''EF''\<rparr>, \<lparr>seq = 9, data = ''GH''\<rparr>],
     firstSeq = 7, lastSeq = 0, currentSeq = 0\<rparr>"

text \<open>
  C7. The chunk \<open>sq\<close> (a positive number, as at the call) reaches the scan of the slots:
  it is not taken as the end marker and it is inside the window. \<open>fs\<close> is the value of
  \<open>firstSeq\<close> the scan compares with, that is \<open>firstSeq\<close> after the first statement of the
  admission. Every slot is occupied by a chunk inside the window, and none holds \<open>sq\<close>.
  Then, if \<open>sq = fs\<close>, a slot holding the highest buffered sequence number is overwritten
  with the chunk and no other slot changes; if \<open>sq \<noteq> fs\<close>, the slots are unchanged.
\<close>

theorem full_buffer_admission:
  assumes ne: "chunks d \<noteq> []" and pos: "0 < sq"
    and fs: "fs = (if firstSeq d = 0 \<and> sq < INT_MAX then sq else firstSeq d)"
    and nomark: "\<not> (lastSeq d = 0 \<and> dat = [])"
    and win: "\<not> (currentSeq d \<noteq> 0 \<and> sq \<le> currentSeq d)" "\<not> (fs \<noteq> 0 \<and> sq < fs)"
      "\<not> (lastSeq d \<noteq> 0 \<and> sq > lastSeq d)"
    and full: "\<forall>c\<in>set (chunks d). seq c \<noteq> sq \<and> seq c \<noteq> 0
        \<and> \<not> (fs > 0 \<and> seq c < fs) \<and> \<not> (lastSeq d > 0 \<and> seq c > lastSeq d)"
  shows "(sq = fs \<longrightarrow>
            (\<exists>j<length (chunks d). seq (chunks d ! j) = Max (seq ` set (chunks d))
               \<and> chunks (storeChunk_Guppy d sq dat) = (chunks d)[j := \<lparr>seq = sq, data = dat\<rparr>]))
         \<and> (sq \<noteq> fs \<longrightarrow> chunks (storeChunk_Guppy d sq dat) = chunks d)"
proof -
  define d1 where "d1 = (if firstSeq d = 0 \<and> sq < INT_MAX then d\<lparr>firstSeq := sq\<rparr> else d)"
  have c1: "chunks d1 = chunks d" "lastSeq d1 = lastSeq d" "currentSeq d1 = currentSeq d"
    "firstSeq d1 = fs"
    by (simp_all add: d1_def fs)
  obtain f s m ms where
    r: "scanSlots fs (lastSeq d) sq 0 (chunks d) (- 1) (- 1) (- 1) = (f, s, m, ms)"
    by (metis prod_cases4)
  from full have nin: "sq \<notin> seq ` set (chunks d)" by auto
  have f: "\<not> f"
    using scanSlots_found [of fs "lastSeq d" sq 0 "chunks d" "- 1" "- 1" "- 1"] r nin by simp
  have s: "s = - 1"
    using scanSlots_no_slot [OF _ r] full by blast
  have r1: "scanSlots (firstSeq d1) (lastSeq d1) sq 0 (chunks d1) (- 1) (- 1) (- 1) = (False, - 1, m, ms)"
    using r f s c1 by simp
  have w1: "\<not> (lastSeq d1 = 0 \<and> length dat = 0)"
    "\<not> ((currentSeq d1 \<noteq> 0 \<and> sq \<le> currentSeq d1) \<or> (firstSeq d1 \<noteq> 0 \<and> sq < firstSeq d1)
              \<or> (lastSeq d1 \<noteq> 0 \<and> sq > lastSeq d1))"
    using nomark win c1 by simp_all
  have "storeChunk_Guppy d sq dat =
      (if sq = firstSeq d1 \<and> 0 \<le> ms
       then d1\<lparr>chunks := (chunks d1)[nat ms := \<lparr>seq = sq, data = dat\<rparr>]\<rparr> else d1)"
    unfolding storeChunk_Guppy_def Let_def d1_def [symmetric]
    by (simp only: r1 w1 if_False prod.case) simp
  then have st: "storeChunk_Guppy d sq dat =
      (if sq = fs \<and> 0 \<le> ms then d1\<lparr>chunks := (chunks d)[nat ms := \<lparr>seq = sq, data = dat\<rparr>]\<rparr> else d1)"
    using c1 by simp
  show ?thesis
  proof (intro conjI impI)
    assume e: "sq = fs"
    from ne obtain c where c: "c \<in> set (chunks d)" by (cases "chunks d") auto
    with full e pos have "- 1 < seq c" by fastforce
    moreover from scanSlots_max [OF nin r]
    have le: "\<forall>c\<in>set (chunks d). seq c \<le> m"
      and alt: "(m = - 1 \<and> ms = - 1) \<or>
        (\<exists>j<length (chunks d). ms = int j \<and> seq (chunks d ! j) = m \<and> - 1 < m)"
      by simp_all
    ultimately obtain j where j: "j < length (chunks d)" "ms = int j" "seq (chunks d ! j) = m"
      using c by fastforce
    have "Max (seq ` set (chunks d)) = m"
    proof (rule Max_eqI)
      show "finite (seq ` set (chunks d))" by simp
      show "\<And>y. y \<in> seq ` set (chunks d) \<Longrightarrow> y \<le> m" using le by auto
      show "m \<in> seq ` set (chunks d)" using j by (metis imageI nth_mem)
    qed
    with j e st c1 show "\<exists>j<length (chunks d). seq (chunks d ! j) = Max (seq ` set (chunks d))
               \<and> chunks (storeChunk_Guppy d sq dat) = (chunks d)[j := \<lparr>seq = sq, data = dat\<rparr>]"
      by auto
  next
    assume "sq \<noteq> fs"
    with st c1 show "chunks (storeChunk_Guppy d sq dat) = chunks d" by simp
  qed
qed

theorem full_buffer_admission_witness:
  "chunks (storeChunk_Guppy fullSession 7 ''CD'')
     = [\<lparr>seq = 8, data = ''EF''\<rparr>, \<lparr>seq = 7, data = ''CD''\<rparr>]
   \<and> chunks (storeChunk_Guppy fullSession 10 ''IJ'') = chunks fullSession"
proof -
  have ne: "chunks fullSession \<noteq> []" by (simp add: fullSession_def)
  have fs7: "(7::int) = (if firstSeq fullSession = 0 \<and> (7::int) < INT_MAX then 7
                         else firstSeq fullSession)"
    and fs10: "(7::int) = (if firstSeq fullSession = 0 \<and> (10::int) < INT_MAX then 10
                         else firstSeq fullSession)"
    by (simp_all add: fullSession_def)
  have nm: "\<not> (lastSeq fullSession = 0 \<and> ''CD'' = [])" "\<not> (lastSeq fullSession = 0 \<and> ''IJ'' = [])"
    by simp_all
  have w7: "\<not> (currentSeq fullSession \<noteq> 0 \<and> 7 \<le> currentSeq fullSession)"
    "\<not> ((7::int) \<noteq> 0 \<and> (7::int) < 7)" "\<not> (lastSeq fullSession \<noteq> 0 \<and> 7 > lastSeq fullSession)"
    by (simp_all add: fullSession_def)
  have w10: "\<not> (currentSeq fullSession \<noteq> 0 \<and> 10 \<le> currentSeq fullSession)"
    "\<not> ((7::int) \<noteq> 0 \<and> (10::int) < 7)" "\<not> (lastSeq fullSession \<noteq> 0 \<and> 10 > lastSeq fullSession)"
    by (simp_all add: fullSession_def)
  have full7: "\<forall>c\<in>set (chunks fullSession). seq c \<noteq> 7 \<and> seq c \<noteq> 0
        \<and> \<not> ((7::int) > 0 \<and> seq c < 7) \<and> \<not> (lastSeq fullSession > 0 \<and> seq c > lastSeq fullSession)"
    by (simp add: fullSession_def)
  have full10: "\<forall>c\<in>set (chunks fullSession). seq c \<noteq> 10 \<and> seq c \<noteq> 0
        \<and> \<not> ((7::int) > 0 \<and> seq c < 7) \<and> \<not> (lastSeq fullSession > 0 \<and> seq c > lastSeq fullSession)"
    by (simp add: fullSession_def)
  from full_buffer_admission [OF ne _ fs10 nm(2) w10 full10]
  have a: "chunks (storeChunk_Guppy fullSession 10 ''IJ'') = chunks fullSession"
    by simp
  from full_buffer_admission [OF ne _ fs7 nm(1) w7 full7]
  obtain j where j: "j < length (chunks fullSession)"
    "seq (chunks fullSession ! j) = Max (seq ` set (chunks fullSession))"
    "chunks (storeChunk_Guppy fullSession 7 ''CD'')
       = (chunks fullSession)[j := \<lparr>seq = 7, data = ''CD''\<rparr>]"
    by auto
  have mx: "Max (seq ` set (chunks fullSession)) = 9" by (simp add: fullSession_def)
  have "j = 1"
  proof (cases j)
    case 0
    with j(2) mx show ?thesis by (simp add: fullSession_def)
  next
    case (Suc n)
    with j(1) show ?thesis by (simp add: fullSession_def)
  qed
  with j(3) a show ?thesis by (simp add: fullSession_def)
qed

subsection \<open>C8: the timeout\<close>

lemma retryGuppy_firstSent:
  "retryGuppy d now connected = (d', notified, interval) \<Longrightarrow> firstSent d' = firstSent d"
  by (auto simp: retryGuppy_def request_Guppy_def ack_Guppy_def split: if_splits)

lemma retryGuppy_early:
  "\<not> (firstSent d + 6000 \<le> now) \<Longrightarrow> retryGuppy d now connected = (d', notified, interval) \<Longrightarrow>
     \<not> notified \<and> interval \<noteq> 0"
  by (auto simp: retryGuppy_def split: if_splits)

lemma retryGuppy_late:
  "firstSent d + 6000 \<le> now \<Longrightarrow> retryGuppy d now connected = (d, True, 0)"
  by (simp add: retryGuppy_def)

lemma runTimer_removed: "runTimer d False ticks = (d, False, 0)"
  by (induction ticks) auto

text \<open>
  C8. The timer is registered and its ticks are \<open>before\<close>, then one at \<open>now\<close>, then \<open>after\<close>.
  No tick of \<open>before\<close> has reached \<open>firstSent + 6000\<close> and the tick at \<open>now\<close> has. Then the
  ticks of \<open>before\<close> notify no timeout and leave the timer registered; the tick at \<open>now\<close>
  notifies the timeout and returns 0, which removes the timer; and the whole run notifies
  exactly once and ends in the session as it was before the tick at \<open>now\<close>: no request
  and no acknowledgment is written at that tick or after it.
\<close>

theorem timeout_once:
  assumes "\<forall>tick\<in>set before. \<not> (firstSent d + 6000 \<le> fst tick)"
    and "firstSent d + 6000 \<le> now"
  shows "\<exists>d1. runTimer d True before = (d1, True, 0)
            \<and> retryGuppy d1 now connected = (d1, True, 0)
            \<and> runTimer d True (before @ (now, connected) # after) = (d1, False, 1)"
  using assms
proof (induction before arbitrary: d)
  case Nil
  then show ?case by (simp add: retryGuppy_late runTimer_removed)
next
  case (Cons tick before)
  obtain t c where tick: "tick = (t, c)" by (cases tick)
  obtain d' notified interval where r: "retryGuppy d t c = (d', notified, interval)"
    by (metis prod_cases3)
  from Cons.prems(1) tick have early: "\<not> (firstSent d + 6000 \<le> t)" by simp
  from retryGuppy_early [OF early r] have ni: "\<not> notified" "interval \<noteq> 0" by simp_all
  from retryGuppy_firstSent [OF r] have fs: "firstSent d' = firstSent d" .
  from Cons.prems fs have
    "\<forall>tick\<in>set before. \<not> (firstSent d' + 6000 \<le> fst tick)" "firstSent d' + 6000 \<le> now"
    by simp_all
  from Cons.IH [OF this] obtain d1 where
    d1: "runTimer d' True before = (d1, True, 0)" "retryGuppy d1 now connected = (d1, True, 0)"
      "runTimer d' True (before @ (now, connected) # after) = (d1, False, 1)"
    by blast
  with r ni tick show ?case by simp
qed

definition openedAt5 :: Guppy where
  "openedAt5 = \<lparr>state = inProgress_GuppyState, url = ''guppy://host/doc'',
     socket = [''guppy://host/doc'' @ CRLF], body = [], meta = [],
     timer = 1, firstSent = 5, lastSent = 5,
     chunks = replicate 8 freeChunk, firstSeq = 0, lastSeq = 0, currentSeq = 0\<rparr>"

theorem timeout_once_witness:
  "\<exists>d1. runTimer openedAt5 True [(105, True), (1105, True)] = (d1, True, 0)
      \<and> retryGuppy d1 6005 True = (d1, True, 0)
      \<and> runTimer openedAt5 True [(105, True), (1105, True), (6005, True), (6105, True)]
           = (d1, False, 1)"
proof -
  have a: "\<forall>tick\<in>set [(105, True), (1105, True)]. \<not> (firstSent openedAt5 + 6000 \<le> fst tick)"
    by (simp add: openedAt5_def)
  have b: "firstSent openedAt5 + 6000 \<le> 6005" by (simp add: openedAt5_def)
  from timeout_once [OF a b, of True "[(6105, True)]"] show ?thesis by simp
qed

subsection \<open>C9: \<open>currentSeq\<close> and the delivered chunks\<close>

text \<open>
  C9. From a session whose \<open>currentSeq\<close> is not negative, run any sequence of admissions
  and drains; \<open>log\<close> is the list of the chunks the drains appended to the body, in order.
  Then \<open>currentSeq\<close> has not decreased, the body has grown by exactly the payloads of \<open>log\<close>,
  and the sequence numbers of \<open>log\<close> are consecutive and end at \<open>currentSeq\<close>: they are
  \<open>firstSeq, ..., currentSeq\<close> when nothing had been delivered at the start
  (\<open>currentSeq = 0\<close>), the numbers after the old \<open>currentSeq\<close> up to the new one otherwise,
  and none while \<open>currentSeq\<close> is still 0.
\<close>

theorem currentSeq_delivered:
  assumes "runOps d ops = (d', log)" and "0 \<le> currentSeq d"
  shows "currentSeq d \<le> currentSeq d'
    \<and> body d' = body d @ concat (map data log)
    \<and> map seq log =
        (if currentSeq d' = 0 then []
         else if currentSeq d = 0 then [firstSeq d'..currentSeq d']
         else [currentSeq d + 1..currentSeq d'])"
  using assms by (rule runOps_delivered)

definition session3 :: Guppy where
  "session3 = \<lparr>state = inProgress_GuppyState, url = [], socket = [], body = [], meta = [],
     timer = 1, firstSent = 0, lastSent = 0, chunks = replicate 3 freeChunk,
     firstSeq = 0, lastSeq = 0, currentSeq = 0\<rparr>"

theorem currentSeq_delivered_witness:
  "0 \<le> currentSeq session3
   \<and> currentSeq (fst (runOps session3
         [Admit 6 ''AB'', Drain, Admit 8 ''EF'', Drain, Admit 7 ''CD'', Drain])) = 8
   \<and> body (fst (runOps session3
         [Admit 6 ''AB'', Drain, Admit 8 ''EF'', Drain, Admit 7 ''CD'', Drain])) = ''ABCDEF''
   \<and> map seq (snd (runOps session3
         [Admit 6 ''AB'', Drain, Admit 8 ''EF'', Drain, Admit 7 ''CD'', Drain])) = [6, 7, 8]"
proof -
  have run: "runOps session3 [Admit 6 ''AB'', Drain, Admit 8 ''EF'', Drain, Admit 7 ''CD'', Drain]
    = (session3\<lparr>body := ''ABCDEF'', firstSeq := 6, currentSeq := 8\<rparr>,
       [\<lparr>seq = 6, data = ''AB''\<rparr>, \<lparr>seq = 7, data = ''CD''\<rparr>, \<lparr>seq = 8, data = ''EF''\<rparr>])"
    by (simp add: session3_def storeChunk_Guppy_def INT_MAX_def processChunks_Guppy_def
        appended_def drainLoop.simps drainPass_def numeral_3_eq_3)
  have nn: "0 \<le> currentSeq session3" by (simp add: session3_def)
  from currentSeq_delivered [OF run nn] nn show ?thesis
    unfolding run by (simp add: session3_def)
qed

subsection \<open>C6: the window\<close>

text \<open>The window as the specification words it.\<close>

definition insideWindow :: "Guppy \<Rightarrow> int \<Rightarrow> bool" where
  "insideWindow d sq =
     (currentSeq d < sq \<and> (firstSeq d = 0 \<or> firstSeq d \<le> sq) \<and> (lastSeq d = 0 \<or> sq \<le> lastSeq d))"

text \<open>
  C6. In a session that satisfies the invariant of the reorder slots, for a chunk with a
  positive sequence number (the parser passes numbers from 6 on): an admission changes
  the slots only if the chunk is inside the window; an admission of a chunk outside the
  window leaves the slots and the body as they are; the admission and the drain
  preserve the invariant; every occupied slot holds a number above \<open>currentSeq\<close>; and
  after any run of admissions and drains no occupied slot holds the number of a chunk
  that the run appended to the body. \<open>init_Guppy\<close> establishes the invariant
  (\<open>init_windowInv\<close>) and \<open>processResponse_Guppy\<close> preserves it
  (\<open>processResponse_windowInv\<close>).
\<close>

theorem window_invariant:
  assumes inv: "windowInv d" and pos: "0 < sq"
  shows "(chunks (storeChunk_Guppy d sq dat) \<noteq> chunks d \<longrightarrow> insideWindow d sq)
    \<and> (\<not> insideWindow d sq \<longrightarrow>
          chunks (storeChunk_Guppy d sq dat) = chunks d \<and> body (storeChunk_Guppy d sq dat) = body d)
    \<and> windowInv (storeChunk_Guppy d sq dat)
    \<and> windowInv (fst (processChunks_Guppy d nu))
    \<and> (\<forall>c\<in>set (chunks d). seq c = 0 \<or> currentSeq d < seq c)
    \<and> (\<forall>ops. list_all positiveOp ops \<longrightarrow>
          (\<forall>c\<in>set (chunks (fst (runOps d ops))).
              seq c = 0 \<or> seq c \<notin> set (map seq (snd (runOps d ops)))))"
proof -
  from inv have nn: "0 \<le> currentSeq d" by (simp add: windowInv_def)
  have a: "chunks (storeChunk_Guppy d sq dat) \<noteq> chunks d \<longrightarrow> insideWindow d sq"
    using storeChunk_cases [of d sq dat] nn pos by (auto simp: insideWindow_def)
  have b: "\<not> insideWindow d sq \<longrightarrow> chunks (storeChunk_Guppy d sq dat) = chunks d"
    using a by blast
  have e: "\<forall>c\<in>set (chunks d). seq c = 0 \<or> currentSeq d < seq c"
    using inv by (auto simp: windowInv_def)
  have f: "\<forall>ops. list_all positiveOp ops \<longrightarrow>
          (\<forall>c\<in>set (chunks (fst (runOps d ops))).
              seq c = 0 \<or> seq c \<notin> set (map seq (snd (runOps d ops))))"
    using runOps_slots_undelivered [OF inv] by (metis prod.collapse)
  from a b e f storeChunk_windowInv [OF inv pos] processChunks_windowInv [OF inv]
  show ?thesis by simp
qed

definition windowSession :: Guppy where
  "windowSession = \<lparr>state = inProgress_GuppyState, url = [], socket = [], body = ''AB'', meta = [],
     timer = 1, firstSent = 0, lastSent = 0,
     chunks = [\<lparr>seq = 8, data = ''EF''\<rparr>, freeChunk],
     firstSeq = 6, lastSeq = 0, currentSeq = 6\<rparr>"

theorem window_invariant_witness:
  "windowInv windowSession \<and> insideWindow windowSession 7 \<and> \<not> insideWindow windowSession 5
   \<and> chunks (storeChunk_Guppy windowSession 7 ''CD'')
       = [\<lparr>seq = 8, data = ''EF''\<rparr>, \<lparr>seq = 7, data = ''CD''\<rparr>]
   \<and> windowInv (storeChunk_Guppy windowSession 7 ''CD'')
   \<and> chunks (storeChunk_Guppy windowSession 5 ''ZZ'') = chunks windowSession
   \<and> body (storeChunk_Guppy windowSession 5 ''ZZ'') = body windowSession"
proof -
  have inv: "windowInv windowSession"
    by (simp add: windowInv_def windowSession_def INT_MAX_def)
  have w: "insideWindow windowSession 7" "\<not> insideWindow windowSession 5"
    by (simp_all add: insideWindow_def windowSession_def)
  have st: "chunks (storeChunk_Guppy windowSession 7 ''CD'')
       = [\<lparr>seq = 8, data = ''EF''\<rparr>, \<lparr>seq = 7, data = ''CD''\<rparr>]"
    by (simp add: windowSession_def storeChunk_Guppy_def INT_MAX_def)
  from window_invariant [OF inv, of 7 "''CD''" False] window_invariant [OF inv, of 5 "''ZZ''" False]
    inv w st
  show ?thesis by simp
qed

subsection \<open>C3: the status line\<close>

text \<open>
  C3. The read has a header line that the pattern matches, with the number \<open>code\<close> and the
  remainder \<open>captured2\<close>, and \<open>firstSeq\<close> is still 0. Then right after the header is
  handled (before the drain) the state is the one the table \<open>statusOf\<close> gives: 0 and 5
  give \<open>invalidResponse_GuppyState\<close>, 1 gives \<open>inputRequired_GuppyState\<close>, 3 gives
  \<open>redirect_GuppyState\<close>, 4 gives \<open>error_GuppyState\<close>, every other number gives
  \<open>inProgress_GuppyState\<close>; and \<open>meta\<close> is as \<open>metaOf\<close> says: unchanged for 0, 5 and 4, the
  remainder without its first character otherwise. When also \<open>lastSeq\<close> and \<open>currentSeq\<close>
  are still 0, this is the state and \<open>meta\<close> the call of \<open>processResponse_Guppy\<close> returns.
  The witness is the read \<open>1 Enter passphrase\<close> CRLF.
\<close>

theorem status_line_mapping:
  assumes unknown: "firstSeq d = 0"
    and header: "indexOfCStr_String raw CRLF = Some k"
      "matchString_metaPattern (take k raw) = Some (captured1, captured2)"
    and code: "code = toInt_String captured1"
  shows "state (matchedHeader d code captured2 (drop (k + 2) raw) now) = statusOf code
    \<and> meta (matchedHeader d code captured2 (drop (k + 2) raw) now) = metaOf d code captured2
    \<and> (lastSeq d = 0 \<and> currentSeq d = 0 \<longrightarrow>
          state (fst (processResponse_Guppy d raw now nu)) = statusOf code
          \<and> meta (fst (processResponse_Guppy d raw now nu)) = metaOf d code captured2)"
proof -
  let ?h = "matchedHeader d code captured2 (drop (k + 2) raw) now"
  note m = matchedHeader_unknown [OF unknown, of code captured2 "drop (k + 2) raw" now]
  have p: "processResponse_Guppy d raw now nu = afterChunks (processChunks_Guppy ?h nu)"
  proof -
    from header(1) have "raw \<noteq> []" by auto
    with header code show ?thesis
      by (simp add: processResponse_Guppy_def afterChunks_def)
  qed
  have "state (fst (processResponse_Guppy d raw now nu)) = statusOf code
          \<and> meta (fst (processResponse_Guppy d raw now nu)) = metaOf d code captured2"
    if z: "lastSeq d = 0" "currentSeq d = 0"
  proof -
    have c: "currentSeq ?h = 0" using m(3) z by simp
    have w: "lastSeq ?h = 0 \<or> (6 \<le> lastSeq ?h \<and> (firstSeq ?h = 0 \<or> lastSeq ?h \<le> firstSeq ?h))"
      using m(4,5) z by auto
    from processChunks_state [OF c w, of nu] m(1,2) show ?thesis by (simp add: p)
  qed
  with m(1,2) show ?thesis by simp
qed

theorem status_line_mapping_witness:
  "state (fst (processResponse_Guppy openedSession (''1 Enter passphrase'' @ CRLF) 10 False))
     = inputRequired_GuppyState
   \<and> meta (fst (processResponse_Guppy openedSession (''1 Enter passphrase'' @ CRLF) 10 False))
     = ''Enter passphrase''"
proof -
  have u: "firstSeq openedSession = 0" "lastSeq openedSession = 0 \<and> currentSeq openedSession = 0"
    by (simp_all add: openedSession_def)
  have h: "indexOfCStr_String (''1 Enter passphrase'' @ CRLF) CRLF = Some 18"
    "matchString_metaPattern (take 18 (''1 Enter passphrase'' @ CRLF)) = Some (''1'', '' Enter passphrase'')"
    by (simp_all add: CRLF_def matchString_metaPattern_def isDigit_def)
  have c: "(1::int) = toInt_String ''1''"
    by (simp add: toInt_String_def decimalValue_def)
  from status_line_mapping [OF u(1) h c, of 10 False] u(2)
  show ?thesis by (simp add: statusOf_def metaOf_def)
qed

subsection \<open>C2: the state after a terminal value\<close>

text \<open>
  C2 (as amended). Once \<open>firstSeq\<close> is known and the state is not
  \<open>inProgress_GuppyState\<close>, no run of later reads brings the state back to
  \<open>inProgress_GuppyState\<close>: the state stays as it is or becomes
  \<open>invalidResponse_GuppyState\<close> (a header that does not match) or \<open>finished_GuppyState\<close>
  (the test after the drain).
  While \<open>firstSeq\<close> is unknown, a header that matches sets the state by the status table
  again, whatever the state was.
\<close>

theorem terminal_not_resumed:
  "(firstSeq d \<noteq> 0 \<and> state d \<noteq> inProgress_GuppyState \<longrightarrow>
      state (processAll d reads) \<noteq> inProgress_GuppyState
      \<and> (state (processAll d reads) = state d
          \<or> state (processAll d reads) = invalidResponse_GuppyState
          \<or> state (processAll d reads) = finished_GuppyState))
   \<and> (firstSeq d = 0 \<longrightarrow>
      state (matchedHeader d code captured2 payload now) = statusOf code)"
  using processAll_known [of d reads] matchedHeader_unknown(1) [of d code captured2 payload now]
  by blast

definition failedSession :: Guppy where
  "failedSession = \<lparr>state = error_GuppyState, url = ''guppy://host/doc'',
     socket = [''guppy://host/doc'' @ CRLF], body = ''AB'', meta = [],
     timer = 0, firstSent = 5, lastSent = 5,
     chunks = [\<lparr>seq = 7, data = ''CD''\<rparr>, freeChunk], firstSeq = 6, lastSeq = 8, currentSeq = 6\<rparr>"

definition promptedSession :: Guppy where
  "promptedSession = \<lparr>state = inputRequired_GuppyState, url = ''guppy://host/doc'',
     socket = [''guppy://host/doc'' @ CRLF], body = [], meta = ''prompt'',
     timer = 0, firstSent = 5, lastSent = 10,
     chunks = [freeChunk, freeChunk], firstSeq = 0, lastSeq = 0, currentSeq = 0\<rparr>"

theorem terminal_not_resumed_witness:
  "firstSeq failedSession \<noteq> 0 \<and> state failedSession \<noteq> inProgress_GuppyState
   \<and> state (processAll failedSession [(''9'' @ CRLF @ ''GH'', 10)]) = finished_GuppyState
   \<and> state (processAll failedSession [(''9'' @ CRLF @ ''GH'', 10), (''6 hello'' @ CRLF @ ''AB'', 20)])
       \<noteq> inProgress_GuppyState
   \<and> firstSeq promptedSession = 0
   \<and> state (matchedHeader promptedSession 6 '' hello'' ''AB'' 20) = inProgress_GuppyState"
proof -
  have a: "firstSeq failedSession \<noteq> 0 \<and> state failedSession \<noteq> inProgress_GuppyState"
    by (simp add: failedSession_def)
  have b: "state (processAll failedSession [(''9'' @ CRLF @ ''GH'', 10)]) = finished_GuppyState"
    by (simp add: failedSession_def eval_defs)
  have c: "firstSeq promptedSession = 0" by (simp add: promptedSession_def)
  from terminal_not_resumed
    [of failedSession "[(''9'' @ CRLF @ ''GH'', 10), (''6 hello'' @ CRLF @ ''AB'', 20)]"]
    terminal_not_resumed [of promptedSession "[]" 6 "'' hello''" "''AB''" 20]
    a b c show ?thesis by (simp add: statusOf_def)
qed

text \<open>
  The claim as stated fails while \<open>firstSeq\<close> is unknown: after the status line
  \<open>1 prompt\<close> the state is \<open>inputRequired_GuppyState\<close>; a later read \<open>6 hello\<close> CRLF \<open>AB\<close>
  makes it \<open>inProgress_GuppyState\<close>, and a later read \<open>bye\<close> CRLF makes it
  \<open>invalidResponse_GuppyState\<close>.
\<close>

theorem terminal_overwritten_counterexample:
  "state (processAll openedSession [(''1 prompt'' @ CRLF, 10)]) = inputRequired_GuppyState
   \<and> state (processAll openedSession [(''1 prompt'' @ CRLF, 10), (''6 hello'' @ CRLF @ ''AB'', 20)])
       = inProgress_GuppyState
   \<and> state (processAll openedSession [(''1 prompt'' @ CRLF, 10), (''bye'' @ CRLF, 20)])
       = invalidResponse_GuppyState"
  by (simp add: openedSession_def replicate_8 eval_defs)

subsection \<open>C10: an empty first chunk\<close>

text \<open>
  C10 (as amended). No watermark is known and every slot is free. The read has a header
  with a number \<open>sq\<close> from 6 on and below \<open>INT_MAX\<close>, and no byte after the CRLF. Then the
  call sets \<open>firstSeq\<close> and \<open>lastSeq\<close> to \<open>sq\<close>, stores nothing, appends nothing and
  leaves the state \<open>inProgress_GuppyState\<close>. After any later reads the state is not
  \<open>finished_GuppyState\<close>, \<open>firstSeq\<close> and \<open>lastSeq\<close> are still \<open>sq\<close>, \<open>currentSeq\<close> is 0 or
  \<open>sq\<close>, the body is as it was as long as \<open>currentSeq\<close> is 0, and the admission of a chunk
  with any other sequence number changes nothing.
\<close>

theorem empty_first_chunk:
  assumes fresh: "firstSeq d = 0" "lastSeq d = 0" "currentSeq d = 0"
      "\<forall>c\<in>set (chunks d). seq c = 0"
    and header: "indexOfCStr_String raw CRLF = Some k"
      "matchString_metaPattern (take k raw) = Some (captured1, captured2)"
      "drop (k + 2) raw = []"
    and sq: "sq = toInt_String captured1" "6 \<le> sq" "sq < INT_MAX"
    and d1: "d1 = fst (processResponse_Guppy d raw now nu)"
  shows "firstSeq d1 = sq \<and> lastSeq d1 = sq \<and> chunks d1 = chunks d \<and> body d1 = body d
    \<and> state d1 = inProgress_GuppyState
    \<and> (\<forall>reads. state (processAll d1 reads) \<noteq> finished_GuppyState
          \<and> firstSeq (processAll d1 reads) = sq \<and> lastSeq (processAll d1 reads) = sq
          \<and> (currentSeq (processAll d1 reads) = 0 \<or> currentSeq (processAll d1 reads) = sq)
          \<and> (currentSeq (processAll d1 reads) = 0 \<longrightarrow> body (processAll d1 reads) = body d)
          \<and> (\<forall>sq' dat. sq' \<noteq> sq \<longrightarrow>
                storeChunk_Guppy (processAll d1 reads) sq' dat = processAll d1 reads))"
proof -
  define h where "h = matchedHeader d sq captured2 [] now"
  from header(1) have ne: "raw \<noteq> []" by auto
  have p: "processResponse_Guppy d raw now nu = afterChunks (processChunks_Guppy h nu)"
    using header sq(1) ne by (simp add: processResponse_Guppy_def afterChunks_def h_def)
  have hs: "state h = inProgress_GuppyState" "firstSeq h = sq" "lastSeq h = sq"
    "currentSeq h = 0"
    using matchedHeader_unknown [OF fresh(1), of sq captured2 "[]" now] fresh sq
    by (simp_all add: h_def statusOf_def)
  have hc: "chunks h = chunks d" "body h = body d"
    using fresh sq storeChunk_found [of sq _ "[]"]
    by (simp_all add: h_def matchedHeader_def Let_def ack_Guppy_def storeChunk_Guppy_def)
  have free: "\<forall>c\<in>set (chunks h). seq c = 0" using hc fresh(4) by simp
  have dl: "drainLoop h nu = (h, nu, [])"
    using drainLoop_all_free [OF free] hs(4) by simp
  have pc: "fst (processChunks_Guppy h nu) = h"
    using hs sq(2) by (simp add: processChunks_drain [OF dl])
  have e: "d1 = h"
    using hs by (simp add: d1 p fst_afterChunks pc)
  have st: "stuckAt sq h"
    using hs free by (simp add: stuckAt_def)
  from sq(2) have nz: "sq \<noteq> 0" by simp
  have "state (processAll h reads) \<noteq> finished_GuppyState
          \<and> firstSeq (processAll h reads) = sq \<and> lastSeq (processAll h reads) = sq
          \<and> (currentSeq (processAll h reads) = 0 \<or> currentSeq (processAll h reads) = sq)
          \<and> (currentSeq (processAll h reads) = 0 \<longrightarrow> body (processAll h reads) = body d)
          \<and> (\<forall>sq' dat. sq' \<noteq> sq \<longrightarrow>
                storeChunk_Guppy (processAll h reads) sq' dat = processAll h reads)" for reads
    using processAll_stuck [OF st sq(2), of reads]
      storeChunk_stuck_other [OF processAll_stuck [OF st sq(2), of reads] nz]
      processAll_body_kept [of h reads] hs(4) hc(2)
    by (simp add: stuckAt_def)
  with hs hc e show ?thesis by simp
qed

theorem empty_first_chunk_witness:
  "firstSeq (fst (processResponse_Guppy openedSession (''6 hello'' @ CRLF) 10 False)) = 6
   \<and> lastSeq (fst (processResponse_Guppy openedSession (''6 hello'' @ CRLF) 10 False)) = 6
   \<and> state (processAll (fst (processResponse_Guppy openedSession (''6 hello'' @ CRLF) 10 False))
        [(''7'' @ CRLF @ ''CD'', 20), (''8'' @ CRLF, 30)]) \<noteq> finished_GuppyState
   \<and> storeChunk_Guppy (fst (processResponse_Guppy openedSession (''6 hello'' @ CRLF) 10 False))
        7 ''CD''
       = fst (processResponse_Guppy openedSession (''6 hello'' @ CRLF) 10 False)"
proof -
  have f: "firstSeq openedSession = 0" "lastSeq openedSession = 0" "currentSeq openedSession = 0"
    "\<forall>c\<in>set (chunks openedSession). seq c = 0"
    by (simp_all add: openedSession_def)
  have h: "indexOfCStr_String (''6 hello'' @ CRLF) CRLF = Some 7"
    "matchString_metaPattern (take 7 (''6 hello'' @ CRLF)) = Some (''6'', '' hello'')"
    "drop (7 + 2) (''6 hello'' @ CRLF) = []"
    by (simp_all add: CRLF_def matchString_metaPattern_def isDigit_def)
  have s: "(6::int) = toInt_String ''6''" "(6::int) \<le> 6" "(6::int) < INT_MAX"
    by (simp_all add: toInt_String_def decimalValue_def INT_MAX_def)
  note t = empty_first_chunk [OF f h s refl, of 10 False]
  from t have a: "firstSeq (fst (processResponse_Guppy openedSession (''6 hello'' @ CRLF) 10 False)) = 6"
    "lastSeq (fst (processResponse_Guppy openedSession (''6 hello'' @ CRLF) 10 False)) = 6"
    by simp_all
  from t have b: "state (processAll (fst (processResponse_Guppy openedSession (''6 hello'' @ CRLF) 10 False))
        [(''7'' @ CRLF @ ''CD'', 20), (''8'' @ CRLF, 30)]) \<noteq> finished_GuppyState"
    by blast
  from t have "\<forall>sq' dat. sq' \<noteq> 6 \<longrightarrow>
      storeChunk_Guppy (processAll (fst (processResponse_Guppy openedSession (''6 hello'' @ CRLF) 10 False)) []) sq' dat
        = processAll (fst (processResponse_Guppy openedSession (''6 hello'' @ CRLF) 10 False)) []"
    by blast
  then have c: "storeChunk_Guppy (fst (processResponse_Guppy openedSession (''6 hello'' @ CRLF) 10 False))
        7 ''CD''
       = fst (processResponse_Guppy openedSession (''6 hello'' @ CRLF) 10 False)"
    by simp
  from a b c show ?thesis by simp
qed

text \<open>
  The claim as stated fails in "body stays empty": after the read \<open>6 hello\<close> CRLF with no
  payload, \<open>firstSeq = lastSeq = 6\<close> and the body is empty; a later read of chunk 6 with
  payload \<open>AB\<close> is inside the window, is stored and drained, and the body is \<open>AB\<close>.
\<close>

theorem empty_first_chunk_counterexample:
  "firstSeq (processAll openedSession [(''6 hello'' @ CRLF, 10)]) = 6
   \<and> lastSeq (processAll openedSession [(''6 hello'' @ CRLF, 10)]) = 6
   \<and> body (processAll openedSession [(''6 hello'' @ CRLF, 10)]) = []
   \<and> body (processAll openedSession [(''6 hello'' @ CRLF, 10), (''6 hello'' @ CRLF @ ''AB'', 20)])
       = ''AB''"
  by (simp add: openedSession_def replicate_8 eval_defs)

subsection \<open>C4: one drain does not always deliver every consecutive chunk\<close>

text \<open>
  A session with \<open>k + 2\<close> slots: chunk 6 is delivered, the chunks 8, 9, ... arrived next
  and fill all slots but the last, and chunk 7 arrived last and took the last slot.
\<close>

definition backlog :: "nat \<Rightarrow> Guppy" where
  "backlog k = \<lparr>state = inProgress_GuppyState, url = [], socket = [], body = ''AB'', meta = [],
     timer = 1, firstSent = 0, lastSent = 0,
     chunks = map (\<lambda>i. \<lparr>seq = 8 + int i, data = ''EF''\<rparr>) [0..<Suc k]
              @ [\<lparr>seq = 7, data = ''CD''\<rparr>],
     firstSeq = 6, lastSeq = 0, currentSeq = 6\<rparr>"

text \<open>
  C4 fails on the code. In \<open>backlog k\<close> the last slot holds chunk 7, which is
  \<open>currentSeq + 1\<close>, and slot 0 holds chunk 8. One call of \<open>processChunks_Guppy\<close> appends
  chunk 7 and stops: the hit is in the last slot, so \<^verbatim>\<open>again = i < N - 1\<close> is false and the
  slots are not scanned again. On return \<open>currentSeq = 7\<close> and slot 0 still holds chunk 8,
  the next deliverable chunk. \<open>drain_stops_early_reads\<close> shows the same outcome end to
  end: with eight slots, after nine reads into an opened session \<open>currentSeq\<close> is 7 while
  the slots still hold the chunks 8 to 14.
\<close>

theorem drain_stops_early:
  "currentSeq (fst (processChunks_Guppy (backlog k) nu)) = 7
   \<and> body (fst (processChunks_Guppy (backlog k) nu)) = ''ABCD''
   \<and> chunks (fst (processChunks_Guppy (backlog k) nu))
       = map (\<lambda>i. \<lparr>seq = 8 + int i, data = ''EF''\<rparr>) [0..<Suc k] @ [freeChunk]
   \<and> chunks (fst (processChunks_Guppy (backlog k) nu)) ! 0 = \<lparr>seq = 8, data = ''EF''\<rparr>"
proof -
  let ?pre = "map (\<lambda>i. \<lparr>seq = 8 + int i, data = ''EF''\<rparr>) [0..<Suc k]"
  have miss: "\<forall>c\<in>set ?pre. \<not> deliverable 6 6 c"
    by (auto simp: deliverable_def)
  have len: "length ?pre = Suc k" by simp
  have sc: "scanChunks 6 (Suc (Suc k)) 0 (?pre @ [\<lparr>seq = 7, data = ''CD''\<rparr>]) 6 ''AB'' nu False
      = (?pre @ [freeChunk], 7, ''ABCD'', True, False, [\<lparr>seq = 7, data = ''CD''\<rparr>])"
    unfolding scanChunks_prefix_miss [OF miss] len
    by (simp add: INT_MAX_def)
  have p: "drainPass (backlog k) nu
      = ((backlog k)\<lparr>chunks := ?pre @ [freeChunk], currentSeq := 7, body := ''ABCD''\<rparr>,
         True, False, [\<lparr>seq = 7, data = ''CD''\<rparr>])"
    using sc by (simp add: drainPass_def backlog_def)
  have l: "drainLoop (backlog k) nu
      = ((backlog k)\<lparr>chunks := ?pre @ [freeChunk], currentSeq := 7, body := ''ABCD''\<rparr>,
         True, [\<lparr>seq = 7, data = ''CD''\<rparr>])"
    by (simp add: drainLoop.simps [of "backlog k" nu] p)
  have z: "(map (\<lambda>i. \<lparr>seq = 8 + int i, data = ''EF''\<rparr>) [0..<Suc k] @ [freeChunk]) ! 0
      = \<lparr>seq = 8, data = ''EF''\<rparr>"
    by (simp add: upt_rec [of 0] del: upt_Suc)
  have r: "fst (processChunks_Guppy (backlog k) nu)
      = (backlog k)\<lparr>chunks := ?pre @ [freeChunk], currentSeq := 7, body := ''ABCD''\<rparr>"
    by (simp add: processChunks_drain [OF l]) (simp add: backlog_def)
  show ?thesis
    unfolding r using z by (simp del: upt_Suc)
qed

lemma drain_stops_early_reads:
  "currentSeq (processAll openedSession
     [(''6 hello'' @ CRLF @ ''AB'', 10), (''8'' @ CRLF @ ''EF'', 20), (''9'' @ CRLF @ ''EF'', 30),
      (''10'' @ CRLF @ ''EF'', 40), (''11'' @ CRLF @ ''EF'', 50), (''12'' @ CRLF @ ''EF'', 60),
      (''13'' @ CRLF @ ''EF'', 70), (''14'' @ CRLF @ ''EF'', 80), (''7'' @ CRLF @ ''CD'', 90)]) = 7
   \<and> map seq (chunks (processAll openedSession
     [(''6 hello'' @ CRLF @ ''AB'', 10), (''8'' @ CRLF @ ''EF'', 20), (''9'' @ CRLF @ ''EF'', 30),
      (''10'' @ CRLF @ ''EF'', 40), (''11'' @ CRLF @ ''EF'', 50), (''12'' @ CRLF @ ''EF'', 60),
      (''13'' @ CRLF @ ''EF'', 70), (''14'' @ CRLF @ ''EF'', 80), (''7'' @ CRLF @ ''CD'', 90)]))
     = [8, 9, 10, 11, 12, 13, 14, 0]"
  by (simp add: openedSession_def replicate_8 eval_defs)

end
